theory Spec2Isabelle
  imports
    Main
    "HOL-Library.Char_ord"
    "HOL-Library.List_Lexorder"
    "HOL-Library.Product_Lexorder"
    "HOL-Library.Sublist"
    "HOL-Library.AList"
begin

section \<open>Strings\<close>

text \<open>
  Python strings are modelled as lists of 8-bit characters and the \<^verbatim>\<open>str\<close> methods the
  generator uses are modelled on ASCII text: case mapping touches the letters A-Z and a-z
  only, and the white space characters are the ASCII ones of \<^verbatim>\<open>str.isspace\<close>
  (0x09-0x0D, 0x1C-0x1F and the blank).
\<close>

definition is_upper :: "char \<Rightarrow> bool" where
  "is_upper c \<longleftrightarrow> 65 \<le> (of_char c :: nat) \<and> (of_char c :: nat) \<le> 90"

definition is_lower :: "char \<Rightarrow> bool" where
  "is_lower c \<longleftrightarrow> 97 \<le> (of_char c :: nat) \<and> (of_char c :: nat) \<le> 122"

definition is_digit :: "char \<Rightarrow> bool" where
  "is_digit c \<longleftrightarrow> 48 \<le> (of_char c :: nat) \<and> (of_char c :: nat) \<le> 57"

definition is_alpha :: "char \<Rightarrow> bool" where
  "is_alpha c \<longleftrightarrow> is_upper c \<or> is_lower c"

definition is_space :: "char \<Rightarrow> bool" where
  "is_space c \<longleftrightarrow>
     (9 \<le> (of_char c :: nat) \<and> (of_char c :: nat) \<le> 13) \<or>
     (28 \<le> (of_char c :: nat) \<and> (of_char c :: nat) \<le> 32)"

definition lower_char :: "char \<Rightarrow> char" where
  "lower_char c = (if is_upper c then char_of (of_char c + (32::nat)) else c)"

definition upper_char :: "char \<Rightarrow> char" where
  "upper_char c = (if is_lower c then char_of (of_char c - (32::nat)) else c)"

text \<open>\<^verbatim>\<open>s.lower()\<close>\<close>

definition lower :: "string \<Rightarrow> string" where
  "lower s = map lower_char s"

text \<open>\<^verbatim>\<open>s.strip(chars)\<close>, \<^verbatim>\<open>s.rstrip(chars)\<close> and \<^verbatim>\<open>s.strip()\<close>, the set of characters
  given as a predicate.\<close>

definition rstrip_chars :: "(char \<Rightarrow> bool) \<Rightarrow> string \<Rightarrow> string" where
  "rstrip_chars p s = rev (dropWhile p (rev s))"

definition strip_chars :: "(char \<Rightarrow> bool) \<Rightarrow> string \<Rightarrow> string" where
  "strip_chars p s = rstrip_chars p (dropWhile p s)"

definition strip :: "string \<Rightarrow> string" where
  "strip s = strip_chars is_space s"

text \<open>\<^verbatim>\<open>s.split(" ", maxsplit)\<close>: cut at single blanks, from the left, at most
  \<open>maxsplit\<close> times.\<close>

fun split_space :: "nat \<Rightarrow> string \<Rightarrow> string list" where
  "split_space 0 s = [s]"
| "split_space (Suc n) s =
     (if CHR '' '' \<in> set s
      then takeWhile (\<lambda>c. c \<noteq> CHR '' '') s
             # split_space n (tl (dropWhile (\<lambda>c. c \<noteq> CHR '' '') s))
      else [s])"

text \<open>\<^verbatim>\<open>re.sub(r"[class]+", repl, s)\<close>: every maximal run of characters of the class is
  replaced by \<open>repl\<close>.\<close>

function re_sub_runs :: "(char \<Rightarrow> bool) \<Rightarrow> string \<Rightarrow> string \<Rightarrow> string" where
  "re_sub_runs p repl [] = []"
| "re_sub_runs p repl (c # cs) =
     (if p c then repl @ re_sub_runs p repl (dropWhile p cs)
      else c # re_sub_runs p repl cs)"
  by pat_completeness auto
termination
  by (relation "measure (\<lambda>(p, repl, s). length s)")
     (auto simp: le_imp_less_Suc length_dropWhile_le)

text \<open>\<^verbatim>\<open>re.split(r"[class]+", s)\<close>: the pieces between the maximal runs of characters
  of the class, empty pieces at both ends included.\<close>

function re_split_runs :: "(char \<Rightarrow> bool) \<Rightarrow> string \<Rightarrow> string list" where
  "re_split_runs p [] = [[]]"
| "re_split_runs p (c # cs) =
     (if p c then [] # re_split_runs p (dropWhile p cs)
      else (case re_split_runs p cs of
              [] \<Rightarrow> [[c]]
            | piece # pieces \<Rightarrow> (c # piece) # pieces))"
  by pat_completeness auto
termination
  by (relation "measure (\<lambda>(p, s). length s)")
     (auto simp: le_imp_less_Suc length_dropWhile_le)

text \<open>\<^verbatim>\<open>needle in haystack\<close> on strings.\<close>

fun contains :: "string \<Rightarrow> string \<Rightarrow> bool" where
  "contains [] needle = (needle = [])"
| "contains (c # cs) needle = (prefix needle (c # cs) \<or> contains cs needle)"

text \<open>
  The builtin \<^verbatim>\<open>int(s)\<close> of CPython on text of the code points 0 to 255. White space
  around the number is dropped: for \<^verbatim>\<open>int\<close> that is 0x09-0x0D, the blank, 0x85 and
  0xA0, but not 0x1C-0x1F, which \<^verbatim>\<open>str.strip\<close> drops. One sign is allowed, and the digits
  0-9 may be grouped by single underscores. A number of more than 4300 digits is refused
  (the default of \<^verbatim>\<open>sys.get_int_max_str_digits\<close>). \<open>None\<close> stands for the
  \<^verbatim>\<open>ValueError\<close> of the builtin.
\<close>

definition is_int_space :: "char \<Rightarrow> bool" where
  "is_int_space c \<longleftrightarrow>
     (9 \<le> (of_char c :: nat) \<and> (of_char c :: nat) \<le> 13) \<or> (of_char c :: nat) = 32
     \<or> (of_char c :: nat) = 133 \<or> (of_char c :: nat) = 160"

fun valid_digits :: "string \<Rightarrow> bool" where
  "valid_digits [] = False"
| "valid_digits [c] = is_digit c"
| "valid_digits (c # d # cs) =
     (if is_digit c then valid_digits (d # cs)
      else c = CHR ''_'' \<and> is_digit d \<and> valid_digits (d # cs))"

definition digits_value :: "string \<Rightarrow> int" where
  "digits_value s = foldl (\<lambda>a c. 10 * a + (int (of_char c) - 48)) 0 (filter is_digit s)"

definition py_int :: "string \<Rightarrow> int option" where
  "py_int s =
     (let t = strip_chars is_int_space s;
          (sign, body) =
            (case t of
               [] \<Rightarrow> (1, [])
             | c # r \<Rightarrow> if c = CHR ''+'' then (1, r) else if c = CHR ''-'' then (- 1, r) else (1, t))
      in if body \<noteq> [] \<and> is_digit (hd body) \<and> valid_digits body
            \<and> length (filter is_digit body) \<le> 4300
         then Some (sign * digits_value body) else None)"

text \<open>Truth value of an \<^verbatim>\<open>Optional[str]\<close>: \<^verbatim>\<open>None\<close> and the empty string are false.\<close>

definition truthy :: "string option \<Rightarrow> bool" where
  "truthy v \<longleftrightarrow> v \<noteq> None \<and> v \<noteq> Some []"

section \<open>Data model\<close>

record Event =
  ev_date :: "string option"
  ev_place :: "string option"

record Individual =
  ind_id :: string
  ind_name :: string
  given_name :: string
  surname :: string
  sex :: string
  famc :: "string option"
  fams :: "string list"
  birth :: Event
  death :: Event

record Family =
  fam_id :: string
  husband :: "string option"
  wife :: "string option"
  children :: "string list"
  marriage :: Event

text \<open>The default values of the three dataclasses.\<close>

definition new_event :: Event where
  "new_event = \<lparr>ev_date = None, ev_place = None\<rparr>"

definition new_individual :: "string \<Rightarrow> Individual" where
  "new_individual p =
     \<lparr>ind_id = p, ind_name = [], given_name = [], surname = [], sex = [], famc = None,
      fams = [], birth = new_event, death = new_event\<rparr>"

definition new_family :: "string \<Rightarrow> Family" where
  "new_family p =
     \<lparr>fam_id = p, husband = None, wife = None, children = [], marriage = new_event\<rparr>"

text \<open>
  A \<^verbatim>\<open>Dict[str, V]\<close> is an association list in insertion order: \<open>map_of\<close> is
  \<^verbatim>\<open>d.get\<close>, \<open>AList.update\<close> is \<^verbatim>\<open>d[k] = v\<close> (an existing key keeps its place) and
  \<open>map snd\<close> is \<^verbatim>\<open>d.values()\<close>.
\<close>

type_synonym 'v dict = "(string \<times> 'v) list"

section \<open>GedcomParser.parse\<close>

text \<open>
  The local variables of the loop. \<^verbatim>\<open>current_individual\<close> and \<^verbatim>\<open>current_family\<close> are
  references to the object that was stored in the dictionary when the record was opened;
  the model keeps the value of the object in the state and writes every assignment to
  one of its fields through to the dictionary entry under the object's identifier.
\<close>

record parser_state =
  individuals :: "Individual dict"
  families :: "Family dict"
  current_individual :: "Individual option"
  current_family :: "Family option"
  current_section :: "string option"

definition initial_state :: parser_state where
  "initial_state =
     \<lparr>individuals = [], families = [], current_individual = None, current_family = None,
      current_section = None\<rparr>"

definition assign_individual :: "parser_state \<Rightarrow> Individual \<Rightarrow> parser_state" where
  "assign_individual s ind =
     s\<lparr>individuals := AList.update (ind_id ind) ind (individuals s),
       current_individual := Some ind\<rparr>"

definition assign_family :: "parser_state \<Rightarrow> Family \<Rightarrow> parser_state" where
  "assign_family s fam =
     s\<lparr>families := AList.update (fam_id fam) fam (families s),
       current_family := Some fam\<rparr>"

text \<open>
  Lines 104 to 124: the line without its line end is cut into level, tag and value; a tag
  between two \<open>@\<close> is the pointer and the value takes its place as the tag. \<open>None\<close> is a
  line the loop leaves by \<^verbatim>\<open>continue\<close> before it looks at the level.

  The builtin \<^verbatim>\<open>int\<close> of line 116 is the parameter \<open>to_int\<close> of the parser, with \<open>None\<close>
  for its \<^verbatim>\<open>ValueError\<close>: what is proved of the parser below is proved for every such
  function, and so does not depend on which texts the interpreter at hand reads as an
  integer (white space, digits outside ASCII, the limit on the number of digits).
  \<open>py_int\<close> is the function used where a concrete input is evaluated.
\<close>

definition line_text :: "string \<Rightarrow> string" where
  "line_text raw_line = rstrip_chars (\<lambda>c. c = CHR 0x0A \<or> c = CHR 0x0D) raw_line"

definition line_parts :: "string \<Rightarrow> string list" where
  "line_parts raw_line = split_space 2 (line_text raw_line)"

definition line_fields ::
  "(string \<Rightarrow> int option) \<Rightarrow> string \<Rightarrow> (int \<times> string option \<times> string \<times> string) option" where
  "line_fields to_int raw_line =
     (if line_text raw_line = [] then None
      else
        (case line_parts raw_line of
           [level_str, tag] \<Rightarrow>
             (case to_int level_str of
                None \<Rightarrow> None
              | Some level \<Rightarrow>
                  if prefix ''@'' tag \<and> suffix ''@'' tag then Some (level, Some tag, [], [])
                  else Some (level, None, tag, []))
         | [level_str, tag, val] \<Rightarrow>
             (case to_int level_str of
                None \<Rightarrow> None
              | Some level \<Rightarrow>
                  if prefix ''@'' tag \<and> suffix ''@'' tag then Some (level, Some tag, val, [])
                  else Some (level, None, tag, val))
         | _ \<Rightarrow> None))"

definition level0 :: "parser_state \<Rightarrow> string option \<Rightarrow> string \<Rightarrow> parser_state" where
  "level0 s pointer tag =
     (let s0 = s\<lparr>current_section := None, current_individual := None, current_family := None\<rparr>
      in if tag = ''INDI'' \<and> truthy pointer
         then assign_individual s0 (new_individual (the pointer))
         else if tag = ''FAM'' \<and> truthy pointer
         then assign_family s0 (new_family (the pointer))
         else s0)"

definition level1 :: "parser_state \<Rightarrow> string \<Rightarrow> string \<Rightarrow> parser_state" where
  "level1 s tag val =
     (let s1 = s\<lparr>current_section := Some tag\<rparr> in
      case current_individual s1 of
        Some ind \<Rightarrow>
          if tag = ''NAME'' then assign_individual s1 (ind\<lparr>ind_name := val\<rparr>)
          else if tag = ''GIVN'' then assign_individual s1 (ind\<lparr>given_name := val\<rparr>)
          else if tag = ''SURN'' then assign_individual s1 (ind\<lparr>surname := val\<rparr>)
          else if tag = ''SEX'' then assign_individual s1 (ind\<lparr>sex := val\<rparr>)
          else if tag = ''FAMC'' then assign_individual s1 (ind\<lparr>famc := Some val\<rparr>)
          else if tag = ''FAMS'' then assign_individual s1 (ind\<lparr>fams := fams ind @ [val]\<rparr>)
          else s1
      | None \<Rightarrow>
          (case current_family s1 of
             Some fam \<Rightarrow>
               if tag = ''HUSB'' then assign_family s1 (fam\<lparr>husband := Some val\<rparr>)
               else if tag = ''WIFE'' then assign_family s1 (fam\<lparr>wife := Some val\<rparr>)
               else if tag = ''CHIL'' then assign_family s1 (fam\<lparr>children := children fam @ [val]\<rparr>)
               else s1
           | None \<Rightarrow> s1))"

definition level2 :: "parser_state \<Rightarrow> string \<Rightarrow> string \<Rightarrow> parser_state" where
  "level2 s tag val =
     (case current_individual s of
        Some ind \<Rightarrow>
          if current_section s = Some ''BIRT'' then
            (if tag = ''DATE'' then assign_individual s (ind\<lparr>birth := (birth ind)\<lparr>ev_date := Some val\<rparr>\<rparr>)
             else if tag = ''PLAC'' then assign_individual s (ind\<lparr>birth := (birth ind)\<lparr>ev_place := Some val\<rparr>\<rparr>)
             else s)
          else if current_section s = Some ''DEAT'' then
            (if tag = ''DATE'' then assign_individual s (ind\<lparr>death := (death ind)\<lparr>ev_date := Some val\<rparr>\<rparr>)
             else if tag = ''PLAC'' then assign_individual s (ind\<lparr>death := (death ind)\<lparr>ev_place := Some val\<rparr>\<rparr>)
             else s)
          else s
      | None \<Rightarrow>
          (case current_family s of
             Some fam \<Rightarrow>
               if current_section s = Some ''MARR'' then
                 (if tag = ''DATE'' then assign_family s (fam\<lparr>marriage := (marriage fam)\<lparr>ev_date := Some val\<rparr>\<rparr>)
                  else if tag = ''PLAC'' then assign_family s (fam\<lparr>marriage := (marriage fam)\<lparr>ev_place := Some val\<rparr>\<rparr>)
                  else s)
               else s
           | None \<Rightarrow> s))"

text \<open>One turn of the loop over the lines of the file.\<close>

definition parse_line :: "(string \<Rightarrow> int option) \<Rightarrow> parser_state \<Rightarrow> string \<Rightarrow> parser_state" where
  "parse_line to_int s raw_line =
     (case line_fields to_int raw_line of
        None \<Rightarrow> s
      | Some (level, pointer, tag, val) \<Rightarrow>
          if level = 0 then level0 s pointer tag
          else if level = 1 then level1 s tag val
          else if level = 2 then level2 s tag val
          else s)"

definition parse_lines :: "(string \<Rightarrow> int option) \<Rightarrow> parser_state \<Rightarrow> string list \<Rightarrow> parser_state" where
  "parse_lines to_int s raw_lines = foldl (parse_line to_int) s raw_lines"

definition parse :: "(string \<Rightarrow> int option) \<Rightarrow> string list \<Rightarrow> Individual dict \<times> Family dict" where
  "parse to_int raw_lines =
     (let s = parse_lines to_int initial_state raw_lines in (individuals s, families s))"

text \<open>The lines the loop passes over: blank, not two or three tokens, a level token
  that \<^verbatim>\<open>int\<close> refuses, or a level of three and more.\<close>

definition skipped_line :: "(string \<Rightarrow> int option) \<Rightarrow> string \<Rightarrow> bool" where
  "skipped_line to_int raw_line \<longleftrightarrow>
     line_text raw_line = []
     \<or> length (line_parts raw_line) \<notin> {2, 3}
     \<or> to_int (hd (line_parts raw_line)) = None
     \<or> (case line_fields to_int raw_line of
           Some (level, pointer, tag, val) \<Rightarrow> 3 \<le> level
         | None \<Rightarrow> False)"

text \<open>A level-0 line that opens the individual, or the family, with pointer \<open>k\<close>.\<close>

definition opens_individual :: "(string \<Rightarrow> int option) \<Rightarrow> string \<Rightarrow> string \<Rightarrow> bool" where
  "opens_individual to_int raw_line k \<longleftrightarrow>
     (case line_fields to_int raw_line of
        Some (level, pointer, tag, val) \<Rightarrow> level = 0 \<and> pointer = Some k \<and> tag = ''INDI''
      | None \<Rightarrow> False)"

definition opens_family :: "(string \<Rightarrow> int option) \<Rightarrow> string \<Rightarrow> string \<Rightarrow> bool" where
  "opens_family to_int raw_line k \<longleftrightarrow>
     (case line_fields to_int raw_line of
        Some (level, pointer, tag, val) \<Rightarrow> level = 0 \<and> pointer = Some k \<and> tag = ''FAM''
      | None \<Rightarrow> False)"

text \<open>The identifiers of the records that are open in a state.\<close>

definition open_individual :: "parser_state \<Rightarrow> string option" where
  "open_individual s = map_option ind_id (current_individual s)"

definition open_family :: "parser_state \<Rightarrow> string option" where
  "open_family s = map_option fam_id (current_family s)"

text \<open>The references held by the loop point into the dictionaries.\<close>

definition aliased :: "parser_state \<Rightarrow> bool" where
  "aliased s \<longleftrightarrow>
     (case current_individual s of
        Some ind \<Rightarrow> map_of (individuals s) (ind_id ind) = Some ind
      | None \<Rightarrow> True)
     \<and> (case current_family s of
          Some fam \<Rightarrow> map_of (families s) (fam_id fam) = Some fam
        | None \<Rightarrow> True)"

section \<open>Names\<close>

text \<open>\<^verbatim>\<open>sep.join(pieces)\<close>\<close>

fun join :: "string \<Rightarrow> string list \<Rightarrow> string" where
  "join sep [] = []"
| "join sep [piece] = piece"
| "join sep (piece # pieces) = piece @ sep @ join sep pieces"

definition normalise :: "string \<Rightarrow> string" where
  "normalise text = strip (re_sub_runs (\<lambda>c. \<not> (is_lower c \<or> is_digit c)) '' '' (lower text))"

definition display_name :: "Individual \<Rightarrow> string" where
  "display_name ind =
     (if ind_name ind \<noteq> [] then
        (let cleaned = strip (filter (\<lambda>c. c \<noteq> CHR ''/'') (ind_name ind))
         in re_sub_runs is_space '' '' cleaned)
      else
        (let pieces = (if given_name ind \<noteq> [] then [given_name ind] else [])
                      @ (if surname ind \<noteq> [] then [surname ind] else [])
         in if pieces \<noteq> [] then join '' '' pieces else ind_id ind))"

definition NAME_SUFFIXES :: "string set" where
  "NAME_SUFFIXES = {''jr'', ''sr'', ''ii'', ''iii'', ''iv'', ''v''}"

text \<open>Line 242: the non-empty pieces between the runs of characters that are no letters.\<close>

definition name_tokens :: "string \<Rightarrow> string list" where
  "name_tokens name = filter (\<lambda>token. token \<noteq> []) (re_split_runs (\<lambda>c. \<not> is_alpha c) name)"

text \<open>Lines 247 to 252: the loop over the tokens after the first one, from the last one
  back, that stops at the first token which is no suffix.\<close>

fun last_name_loop :: "string list \<Rightarrow> string option" where
  "last_name_loop [] = None"
| "last_name_loop (token # tokens) =
     (if lower token \<in> NAME_SUFFIXES then last_name_loop tokens else Some (lower token))"

definition extract_name_key :: "string \<Rightarrow> string option" where
  "extract_name_key name =
     (let tokens = name_tokens name in
      if length tokens < 2 then None
      else
        (let first = lower (hd tokens);
             found = last_name_loop (rev (tl tokens));
             last_name = (if truthy found then the found else lower (last tokens))
         in Some (first @ '' '' @ last_name)))"

section \<open>slugify\<close>

definition slugify :: "string \<Rightarrow> string \<Rightarrow> string" where
  "slugify name identifier =
     (let base = strip_chars (\<lambda>c. c = CHR ''-'')
                   (re_sub_runs (\<lambda>c. \<not> (is_lower c \<or> is_digit c)) ''-'' (lower name));
          base = (if base = [] then strip_chars (\<lambda>c. c = CHR ''@'') identifier else base)
      in base @ ''-'' @ strip_chars (\<lambda>c. c = CHR ''@'') identifier)"

section \<open>find_individual\<close>

text \<open>The exceptions of the generator, with their messages.\<close>

datatype error = ValueError string | TypeError string

definition score :: "string \<Rightarrow> Individual \<Rightarrow> int \<times> int" where
  "score normalized_query individual =
     (let display = normalise (display_name individual) in
      if display = normalized_query then (0, int (length display))
      else if prefix normalized_query display then (1, int (length display))
      else if contains display normalized_query then (2, int (length display))
      else (3, int (length display)))"

text \<open>\<^verbatim>\<open>sorted(..., key=score)\<close> is stable, as \<open>sort_key\<close> is; pairs of integers are
  compared like tuples, first component first.\<close>

definition not_found_message :: "string \<Rightarrow> string" where
  "not_found_message query =
     ''Could not find an individual matching '' @ [CHR 0x27] @ query @ [CHR 0x27] @ ''.''"

definition ambiguous_message :: "string \<Rightarrow> string" where
  "ambiguous_message query =
     ''Multiple individuals match '' @ [CHR 0x27] @ query @ [CHR 0x27]
       @ ''. Please be more specific or use an ID.''"

definition find_individual :: "Individual dict \<Rightarrow> string \<Rightarrow> error + Individual" where
  "find_individual inds query =
     (let normalized_query = normalise query in
      if normalized_query = [] then Inl (ValueError ''Empty name provided'')
      else
        (let matches =
               sort_key (score normalized_query)
                 (filter (\<lambda>ind. contains (normalise (display_name ind)) normalized_query)
                    (map snd inds))
         in case matches of
              [] \<Rightarrow>
                Inl (ValueError (not_found_message query))
            | best # others \<Rightarrow>
                if others \<noteq> [] \<and> fst (score normalized_query (hd others)) = fst (score normalized_query best)
                then Inl (ValueError (ambiguous_message query))
                else Inr best))"

text \<open>
  The policy of the specification, in its own words: the candidates are the individuals
  whose normalised display name contains the normalised query; an exact match is better
  than a match at the start, which is better than a match elsewhere; the best candidates
  are those of the best class that occurs.
\<close>

definition match_class :: "string \<Rightarrow> Individual \<Rightarrow> nat" where
  "match_class normalized_query individual =
     (let display = normalise (display_name individual) in
      if display = normalized_query then 0
      else if prefix normalized_query display then 1
      else 2)"

definition candidates :: "Individual dict \<Rightarrow> string \<Rightarrow> Individual list" where
  "candidates inds normalized_query =
     filter (\<lambda>ind. contains (normalise (display_name ind)) normalized_query) (map snd inds)"

definition best_candidates :: "Individual dict \<Rightarrow> string \<Rightarrow> Individual list" where
  "best_candidates inds normalized_query =
     (let cs = candidates inds normalized_query in
      filter (\<lambda>ind. \<forall>other \<in> set cs. match_class normalized_query ind \<le> match_class normalized_query other) cs)"

section \<open>Dates\<close>

text \<open>
  The value of \<^verbatim>\<open>datetime(year, month, day)\<close>; the time of day is midnight in every
  value the generator builds. The constructor raises \<^verbatim>\<open>ValueError\<close> for a year outside
  1 to 9999, a month outside 1 to 12 and a day the month does not have.
\<close>

record datetime =
  year :: int
  month :: int
  day :: int

definition is_leap :: "int \<Rightarrow> bool" where
  "is_leap y \<longleftrightarrow> y mod 4 = 0 \<and> (y mod 100 \<noteq> 0 \<or> y mod 400 = 0)"

definition days_in_month :: "int \<Rightarrow> int \<Rightarrow> int" where
  "days_in_month y m =
     (if m = 2 then (if is_leap y then 29 else 28)
      else if m = 4 \<or> m = 6 \<or> m = 9 \<or> m = 11 then 30 else 31)"

fun str_nat :: "nat \<Rightarrow> string" where
  "str_nat n = (if n < 10 then [char_of (48 + n)] else str_nat (n div 10) @ [char_of (48 + n mod 10)])"

definition str_int :: "int \<Rightarrow> string" where
  "str_int i = (if i < 0 then ''-'' @ str_nat (nat (- i)) else str_nat (nat i))"

definition make_datetime :: "int \<Rightarrow> int \<Rightarrow> int \<Rightarrow> error + datetime" where
  "make_datetime y m d =
     (if y < 1 \<or> 9999 < y then Inl (ValueError (''year '' @ str_int y @ '' is out of range''))
      else if m < 1 \<or> 12 < m then Inl (ValueError ''month must be in 1..12'')
      else if d < 1 \<or> days_in_month y m < d then Inl (ValueError ''day is out of range for month'')
      else Inr \<lparr>year = y, month = m, day = d\<rparr>)"

subsection \<open>datetime.strptime\<close>

text \<open>
  \<^verbatim>\<open>strptime\<close> turns the format into a regular expression: a directive \<^verbatim>\<open>%x\<close> becomes a
  group of alternatives, a run of white space becomes \<^verbatim>\<open>\s+\<close>, any other character
  stands for itself, and letters match without regard to case. The first match found by
  backtracking, from the start of the text, is taken; text left over after it is an
  error. A matcher is modelled as the list of its matches in the order in which
  backtracking finds them, each with the rest of the text.
\<close>

datatype directive = Dir char | Lit char | Spaces

function format_items :: "string \<Rightarrow> directive list" where
  "format_items [] = []"
| "format_items (c # cs) =
     (if is_space c then Spaces # format_items (dropWhile is_space cs)
      else if c = CHR ''%'' \<and> cs \<noteq> [] then Dir (hd cs) # format_items (tl cs)
      else Lit c # format_items cs)"
  by pat_completeness auto
termination
  by (relation "measure length")
     (auto simp: le_imp_less_Suc length_dropWhile_le)

fun match_classes :: "(char \<Rightarrow> bool) list \<Rightarrow> string \<Rightarrow> (string \<times> string) list" where
  "match_classes [] s = [([], s)]"
| "match_classes (p # ps) [] = []"
| "match_classes (p # ps) (c # cs) =
     (if p c then map (\<lambda>(m, r). (c # m, r)) (match_classes ps cs) else [])"

definition alternatives :: "(char \<Rightarrow> bool) list list \<Rightarrow> string \<Rightarrow> (string \<times> string) list" where
  "alternatives alts s = concat (map (\<lambda>alt. match_classes alt s) alts)"

definition one_of :: "string \<Rightarrow> char \<Rightarrow> bool" where
  "one_of cs c \<longleftrightarrow> c \<in> set cs"

text \<open>\<^verbatim>\<open>%d\<close> is \<^verbatim>\<open>3[0-1]|[1-2]\d|0[1-9]|[1-9]| [1-9]\<close>, \<^verbatim>\<open>%m\<close> is \<^verbatim>\<open>1[0-2]|0[1-9]|[1-9]\<close>,
  \<^verbatim>\<open>%y\<close> is \<^verbatim>\<open>\d\d\<close> and \<^verbatim>\<open>%Y\<close> is \<^verbatim>\<open>\d\d\d\d\<close>.\<close>

definition regex_d :: "string \<Rightarrow> (string \<times> string) list" where
  "regex_d = alternatives
     [[one_of ''3'', one_of ''01''], [one_of ''12'', is_digit], [one_of ''0'', one_of ''123456789''],
      [one_of ''123456789''], [one_of '' '', one_of ''123456789'']]"

definition regex_m :: "string \<Rightarrow> (string \<times> string) list" where
  "regex_m = alternatives
     [[one_of ''1'', one_of ''012''], [one_of ''0'', one_of ''123456789''], [one_of ''123456789'']]"

definition regex_y :: "string \<Rightarrow> (string \<times> string) list" where
  "regex_y = alternatives [[is_digit, is_digit]]"

definition regex_Y :: "string \<Rightarrow> (string \<times> string) list" where
  "regex_Y = alternatives [[is_digit, is_digit, is_digit, is_digit]]"

text \<open>The month names of the C locale. In the regular expression the names stand
  longest first; the value of the group is the place of the name in the calendar.\<close>

definition a_month :: "string list" where
  "a_month = [''jan'', ''feb'', ''mar'', ''apr'', ''may'', ''jun'', ''jul'', ''aug'', ''sep'',
     ''oct'', ''nov'', ''dec'']"

definition f_month :: "string list" where
  "f_month = [''january'', ''february'', ''march'', ''april'', ''may'', ''june'', ''july'',
     ''august'', ''september'', ''october'', ''november'', ''december'']"

definition regex_names :: "string list \<Rightarrow> string \<Rightarrow> (int \<times> string) list" where
  "regex_names names s =
     concat (map (\<lambda>(name, i). if lower (take (length name) s) = name
                                then [(i, drop (length name) s)] else [])
                 (sort_key (\<lambda>(name, i). - int (length name)) (zip names [1 .. 12])))"

text \<open>The values found so far: line 46 and 47 of \<^verbatim>\<open>_strptime\<close> set the year to
  \<^verbatim>\<open>None\<close> and month and day to 1.\<close>

record found_fields =
  f_year :: "int option"
  f_mon :: int
  f_day :: int

definition match_item :: "directive \<Rightarrow> found_fields \<Rightarrow> string \<Rightarrow> (found_fields \<times> string) list" where
  "match_item item found s =
     (case item of
        Spaces \<Rightarrow> map (\<lambda>k. (found, drop k s)) (rev [1 ..< Suc (length (takeWhile is_space s))])
      | Lit c \<Rightarrow> (case s of [] \<Rightarrow> [] | x # xs \<Rightarrow> if lower_char x = lower_char c then [(found, xs)] else [])
      | Dir x \<Rightarrow>
          if x = CHR ''d'' then map (\<lambda>(m, r). (found\<lparr>f_day := digits_value m\<rparr>, r)) (regex_d s)
          else if x = CHR ''m'' then map (\<lambda>(m, r). (found\<lparr>f_mon := digits_value m\<rparr>, r)) (regex_m s)
          else if x = CHR ''Y'' then map (\<lambda>(m, r). (found\<lparr>f_year := Some (digits_value m)\<rparr>, r)) (regex_Y s)
          else if x = CHR ''y'' then
            map (\<lambda>(m, r). (found\<lparr>f_year := Some (if digits_value m \<le> 68 then digits_value m + 2000
                                                     else digits_value m + 1900)\<rparr>, r)) (regex_y s)
          else if x = CHR ''b'' then map (\<lambda>(i, r). (found\<lparr>f_mon := i\<rparr>, r)) (regex_names a_month s)
          else if x = CHR ''B'' then map (\<lambda>(i, r). (found\<lparr>f_mon := i\<rparr>, r)) (regex_names f_month s)
          else [])"

fun match_items :: "directive list \<Rightarrow> found_fields \<Rightarrow> string \<Rightarrow> (found_fields \<times> string) list" where
  "match_items [] found s = [(found, s)]"
| "match_items (item # items) found s =
     concat (map (\<lambda>(found', s'). match_items items found' s') (match_item item found s))"

text \<open>\<open>None\<close> is the \<^verbatim>\<open>ValueError\<close> of \<^verbatim>\<open>strptime\<close>: no match, text left over, or a
  date that does not exist. A format without a year gives the year 1900.\<close>

definition strptime :: "string \<Rightarrow> string \<Rightarrow> datetime option" where
  "strptime data_string format =
     (case match_items (format_items format) \<lparr>f_year = None, f_mon = 1, f_day = 1\<rparr> data_string of
        [] \<Rightarrow> None
      | (found, rest) # others \<Rightarrow>
          if rest \<noteq> [] then None
          else
            (case make_datetime (case f_year found of None \<Rightarrow> 1900 | Some y \<Rightarrow> y)
                    (f_mon found) (f_day found) of
               Inl e \<Rightarrow> None
             | Inr dt \<Rightarrow> Some dt))"

subsection \<open>parse_date_string and birth_sort_key\<close>

definition DATE_FORMATS :: "string list" where
  "DATE_FORMATS =
     [''%m/%d/%Y'', ''%m/%d/%y'', ''%d/%m/%Y'', ''%d %b %Y'', ''%d %B %Y'', ''%b %d %Y'', ''%B %d %Y'']"

text \<open>\<^verbatim>\<open>s.title()\<close>: a letter after a letter is put in lower case, any other letter in
  upper case.\<close>

fun title_from :: "bool \<Rightarrow> string \<Rightarrow> string" where
  "title_from previous_is_cased [] = []"
| "title_from previous_is_cased (c # cs) =
     (if is_lower c then (if previous_is_cased then c else upper_char c) # title_from True cs
      else if is_upper c then (if previous_is_cased then lower_char c else c) # title_from True cs
      else c # title_from False cs)"

definition title :: "string \<Rightarrow> string" where
  "title s = title_from False s"

text \<open>The loop over \<^verbatim>\<open>DATE_FORMATS\<close>: the first format that parses gives the result.\<close>

fun try_formats :: "string \<Rightarrow> string list \<Rightarrow> datetime option" where
  "try_formats cleaned [] = None"
| "try_formats cleaned (fmt # fmts) =
     (case strptime cleaned fmt of
        Some dt \<Rightarrow> Some dt
      | None \<Rightarrow> try_formats cleaned fmts)"

text \<open>\<^verbatim>\<open>s.split(sep)\<close> for a separator of one character.\<close>

fun split_char :: "char \<Rightarrow> string \<Rightarrow> string list" where
  "split_char sep [] = [[]]"
| "split_char sep (c # cs) =
     (if c = sep then [] # split_char sep cs
      else (case split_char sep cs of
              [] \<Rightarrow> [[c]]
            | piece # pieces \<Rightarrow> (c # piece) # pieces))"

text \<open>\<^verbatim>\<open>re.fullmatch(r"(\d{1,2})/(\d{1,2})/(\d{4})", cleaned)\<close> with its three groups as
  integers, in the order of the groups.\<close>

definition loose_date :: "string \<Rightarrow> (int \<times> int \<times> int) option" where
  "loose_date cleaned =
     (case split_char CHR ''/'' cleaned of
        [a, b, c] \<Rightarrow>
          if list_all is_digit a \<and> length a \<in> {1, 2} \<and> list_all is_digit b \<and> length b \<in> {1, 2}
             \<and> list_all is_digit c \<and> length c = 4
          then Some (digits_value a, digits_value b, digits_value c) else None
      | _ \<Rightarrow> None)"

text \<open>
  \<open>Inl\<close> is an exception that leaves \<^verbatim>\<open>parse_date_string\<close>: the \<^verbatim>\<open>datetime\<close> of line 223
  is not inside a \<^verbatim>\<open>try\<close>, the one of line 228 is.
\<close>

definition parse_date_string :: "string option \<Rightarrow> error + datetime option" where
  "parse_date_string val =
     (if \<not> truthy val then Inr None
      else
        (let cleaned = strip (the val) in
         if cleaned = [] then Inr None
         else
           (let cleaned = map (\<lambda>c. if c = CHR '','' then CHR '' '' else c) cleaned;
                cleaned = re_sub_runs is_space '' '' cleaned;
                cleaned = (if list_ex is_alpha cleaned then title cleaned else cleaned)
            in case try_formats cleaned DATE_FORMATS of
                 Some dt \<Rightarrow> Inr (Some dt)
               | None \<Rightarrow>
                   if length cleaned = 4 \<and> list_all is_digit cleaned
                   then (case make_datetime (digits_value cleaned) 1 1 of
                           Inl e \<Rightarrow> Inl e
                         | Inr dt \<Rightarrow> Inr (Some dt))
                   else
                     (case loose_date cleaned of
                        Some (mon, d, y) \<Rightarrow>
                          (case make_datetime y mon d of
                             Inl e \<Rightarrow> Inr None
                           | Inr dt \<Rightarrow> Inr (Some dt))
                      | None \<Rightarrow> Inr None))))"

text \<open>The elements of the tuples that \<^verbatim>\<open>birth_sort_key\<close> returns, and the comparison
  \<^verbatim>\<open><\<close> of two tuples: the first pair of unequal elements decides, a tuple that is a
  proper prefix of the other is the smaller one, and an integer cannot be compared with a
  string.\<close>

datatype py_val = PyInt int | PyStr string

fun val_lt :: "py_val \<Rightarrow> py_val \<Rightarrow> error + bool" where
  "val_lt (PyInt a) (PyInt b) = Inr (a < b)"
| "val_lt (PyStr a) (PyStr b) = Inr (a < b)"
| "val_lt (PyInt a) (PyStr b) = Inl (TypeError ''< not supported between instances of int and str'')"
| "val_lt (PyStr a) (PyInt b) = Inl (TypeError ''< not supported between instances of str and int'')"

fun tuple_lt :: "py_val list \<Rightarrow> py_val list \<Rightarrow> error + bool" where
  "tuple_lt [] [] = Inr False"
| "tuple_lt [] (y # ys) = Inr True"
| "tuple_lt (x # xs) [] = Inr False"
| "tuple_lt (x # xs) (y # ys) = (if x = y then tuple_lt xs ys else val_lt x y)"

definition birth_sort_key :: "Individual \<Rightarrow> error + py_val list" where
  "birth_sort_key individual =
     (case parse_date_string (ev_date (birth individual)) of
        Inl e \<Rightarrow> Inl e
      | Inr None \<Rightarrow> Inr [PyInt 1, PyStr (normalise (display_name individual))]
      | Inr (Some birth_date) \<Rightarrow>
          Inr [PyInt 0, PyInt (year birth_date), PyInt (month birth_date), PyInt (day birth_date),
               PyStr (normalise (display_name individual))])"


text \<open>The two shapes of a sort key as a tuple of one type, ordered first component
  first: used to compare the order of the keys with a linear order.\<close>

fun int_of :: "py_val \<Rightarrow> int" where
  "int_of (PyInt i) = i"
| "int_of (PyStr s) = 0"

fun str_of :: "py_val \<Rightarrow> string" where
  "str_of (PyStr s) = s"
| "str_of (PyInt i) = []"

definition key_rank :: "py_val list \<Rightarrow> int \<times> int \<times> int \<times> int \<times> string" where
  "key_rank k =
     (if length k = 5
      then (int_of (k ! 0), int_of (k ! 1), int_of (k ! 2), int_of (k ! 3), str_of (k ! 4))
      else (int_of (k ! 0), 0, 0, 0, str_of (k ! 1)))"

section \<open>collect_descendants\<close>

text \<open>
  The two nested \<^verbatim>\<open>for\<close> loops of one turn of the \<^verbatim>\<open>while\<close> loop: the identifiers
  appended to \<^verbatim>\<open>to_process\<close> for a person, in the order of the appends. A family
  identifier with no entry in the dictionary is passed over.
\<close>

definition new_children :: "Family dict \<Rightarrow> string set \<Rightarrow> Individual \<Rightarrow> string list" where
  "new_children fms descendants person =
     concat (map (\<lambda>f. case map_of fms f of
                        None \<Rightarrow> []
                      | Some fam \<Rightarrow> filter (\<lambda>child. child \<notin> descendants) (children fam))
                 (fams person))"

text \<open>
  The \<^verbatim>\<open>while\<close> loop, with the set \<^verbatim>\<open>descendants\<close> and the stack \<^verbatim>\<open>to_process\<close>
  (\<^verbatim>\<open>pop()\<close> takes the last element) as its state. \<open>None\<close> is a loop that does not
  return.
\<close>

partial_function (option) collect_loop ::
  "Individual dict \<Rightarrow> Family dict \<Rightarrow> string set \<Rightarrow> string list \<Rightarrow> string set option" where
  "collect_loop inds fms descendants to_process =
     (if to_process = [] then Some descendants
      else
        let current = last to_process; rest = butlast to_process in
        if current \<in> descendants then collect_loop inds fms descendants rest
        else
          (case map_of inds current of
             None \<Rightarrow> collect_loop inds fms (insert current descendants) rest
           | Some person \<Rightarrow>
               collect_loop inds fms (insert current descendants)
                 (rest @ new_children fms (insert current descendants) person)))"

definition collect_descendants ::
  "Individual dict \<Rightarrow> Family dict \<Rightarrow> Family \<Rightarrow> string set option" where
  "collect_descendants inds fms root_family = collect_loop inds fms {} (children root_family)"

text \<open>
  The children of a person: the children of every family the person is a spouse of. A
  person or a family without an entry has none.
\<close>

definition children_of :: "Individual dict \<Rightarrow> Family dict \<Rightarrow> string \<Rightarrow> string list" where
  "children_of inds fms p =
     (case map_of inds p of
        None \<Rightarrow> []
      | Some person \<Rightarrow>
          concat (map (\<lambda>f. case map_of fms f of None \<Rightarrow> [] | Some fam \<Rightarrow> children fam)
                      (fams person)))"

text \<open>The identifiers reachable from the root family: its children, their children, and
  so on.\<close>

inductive_set descendants_of :: "Individual dict \<Rightarrow> Family dict \<Rightarrow> Family \<Rightarrow> string set"
  for inds :: "Individual dict" and fms :: "Family dict" and root_family :: Family where
  root_child: "c \<in> set (children root_family) \<Longrightarrow> c \<in> descendants_of inds fms root_family"
| grandchild: "p \<in> descendants_of inds fms root_family \<Longrightarrow> c \<in> set (children_of inds fms p)
      \<Longrightarrow> c \<in> descendants_of inds fms root_family"

text \<open>Every identifier that some family of the dictionary lists as a child.\<close>

definition all_children :: "Family dict \<Rightarrow> string set" where
  "all_children fms = (\<Union>fam \<in> snd ` set fms. set (children fam))"

text \<open>The order in which the states of the loop decrease: fewer identifiers are left to
  visit, or as many and the stack is shorter.\<close>

definition loop_order :: "Family dict \<Rightarrow> ((string set \<times> string list) \<times> (string set \<times> string list)) set" where
  "loop_order fms =
     measures [\<lambda>(D, W). card ((set W \<union> all_children fms) - D), \<lambda>(D, W). length W]"

section \<open>Properties of the string functions\<close>

lemma lower_char_idem: "lower_char (lower_char c) = lower_char c"
  unfolding lower_char_def is_upper_def
  by (auto simp: of_char_of [where ?'a = nat])

lemma is_alpha_lower_char: "is_alpha (lower_char c) = is_alpha c"
  unfolding is_alpha_def lower_char_def is_upper_def is_lower_def
  by (auto simp: of_char_of [where ?'a = nat])

lemma lower_idem: "lower (lower s) = lower s"
  by (simp add: lower_def lower_char_idem)

lemma lower_append: "lower (xs @ ys) = lower xs @ lower ys"
  by (simp add: lower_def)

lemma lower_eq_Nil: "lower s = [] \<longleftrightarrow> s = []"
  by (simp add: lower_def)

lemma re_split_runs_nonempty: "re_split_runs p s \<noteq> []"
  by (induction p s rule: re_split_runs.induct) (auto split: list.splits)

lemma hd_re_split_runs: "hd (re_split_runs p s) = takeWhile (\<lambda>c. \<not> p c) s"
proof (induction p s rule: re_split_runs.induct)
  case (1 p)
  show ?case by simp
next
  case (2 p c cs)
  obtain piece pieces where "re_split_runs p cs = piece # pieces"
    using re_split_runs_nonempty [of p cs] by (cases "re_split_runs p cs") auto
  with 2 show ?case by (cases "p c") simp_all
qed

lemma pieces_dropWhile:
  "filter (\<lambda>t. t \<noteq> []) (re_split_runs p (dropWhile p s)) = filter (\<lambda>t. t \<noteq> []) (re_split_runs p s)"
proof (cases s)
  case Nil
  show ?thesis unfolding Nil by simp
next
  case (Cons c cs)
  show ?thesis unfolding Cons by (cases "p c") simp_all
qed

lemma pieces_Nil: "filter (\<lambda>t. t \<noteq> []) (re_split_runs p []) = []"
  by simp

lemma pieces_sep:
  "p c \<Longrightarrow> filter (\<lambda>t. t \<noteq> []) (re_split_runs p (c # cs)) = filter (\<lambda>t. t \<noteq> []) (re_split_runs p cs)"
  using pieces_dropWhile [of p cs] by simp

lemma pieces_tl:
  "filter (\<lambda>t. t \<noteq> []) (tl (re_split_runs p s))
     = filter (\<lambda>t. t \<noteq> []) (re_split_runs p (dropWhile (\<lambda>c. \<not> p c) s))"
proof (induction p s rule: re_split_runs.induct)
  case (1 p)
  show ?case by simp
next
  case (2 p c cs)
  show ?case
  proof (cases "p c")
    case True
    then show ?thesis using pieces_dropWhile [of p cs] by simp
  next
    case False
    with 2 show ?thesis by (auto split: list.splits)
  qed
qed

lemma pieces_word:
  assumes "\<not> p c"
  shows "filter (\<lambda>t. t \<noteq> []) (re_split_runs p (c # cs))
     = takeWhile (\<lambda>c. \<not> p c) (c # cs)
       # filter (\<lambda>t. t \<noteq> []) (re_split_runs p (dropWhile (\<lambda>c. \<not> p c) (c # cs)))"
proof -
  obtain piece pieces where R: "re_split_runs p cs = piece # pieces"
    using re_split_runs_nonempty [of p cs] by (cases "re_split_runs p cs") auto
  then have "piece = takeWhile (\<lambda>c. \<not> p c) cs"
    using hd_re_split_runs [of p cs] by simp
  moreover from R have "filter (\<lambda>t. t \<noteq> []) pieces
      = filter (\<lambda>t. t \<noteq> []) (re_split_runs p (dropWhile (\<lambda>c. \<not> p c) cs))"
    using pieces_tl [of p cs] by simp
  ultimately show ?thesis using assms R by simp
qed

lemma pieces_all_sep:
  "\<forall>c \<in> set sep. p c \<Longrightarrow>
     filter (\<lambda>t. t \<noteq> []) (re_split_runs p (sep @ s)) = filter (\<lambda>t. t \<noteq> []) (re_split_runs p s)"
proof (induction sep)
  case Nil
  show ?case by simp
next
  case (Cons c sep)
  then have "filter (\<lambda>t. t \<noteq> []) (re_split_runs p (c # (sep @ s)))
      = filter (\<lambda>t. t \<noteq> []) (re_split_runs p (sep @ s))"
    by (intro pieces_sep) simp
  with Cons show ?case by simp
qed

lemma pieces_append:
  assumes "sep \<noteq> []" and "\<forall>c \<in> set sep. p c"
  shows "filter (\<lambda>t. t \<noteq> []) (re_split_runs p (a @ sep @ b))
     = filter (\<lambda>t. t \<noteq> []) (re_split_runs p a) @ filter (\<lambda>t. t \<noteq> []) (re_split_runs p b)"
proof (induction "length a" arbitrary: a rule: less_induct)
  case less
  show ?case
  proof (cases a)
    case Nil
    with assms show ?thesis by (simp add: pieces_all_sep)
  next
    case (Cons c cs)
    show ?thesis
    proof (cases "p c")
      case True
      have "length cs < length a" using Cons by simp
      from less [OF this] True Cons show ?thesis
        using pieces_sep [of p c "cs @ sep @ b"] pieces_sep [of p c cs] by simp
    next
      case False
      define w where "w = takeWhile (\<lambda>c. \<not> p c) a"
      define r where "r = dropWhile (\<lambda>c. \<not> p c) a"
      from False Cons have w: "w \<noteq> []" by (simp add: w_def)
      have "length a = length w + length r"
        unfolding w_def r_def by (simp flip: length_append)
      with w have len: "length r < length a" by simp
      obtain s0 ss where sep: "sep = s0 # ss" and s0: "p s0"
        using assms by (cases sep) auto
      have both: "takeWhile (\<lambda>c. \<not> p c) (a @ sep @ b) = w
          \<and> dropWhile (\<lambda>c. \<not> p c) (a @ sep @ b) = r @ sep @ b"
      proof (cases "r = []")
        case True
        then have all: "\<And>x. x \<in> set a \<Longrightarrow> \<not> p x"
          by (simp add: r_def dropWhile_eq_Nil_conv)
        then have "w = a" by (simp add: w_def)
        moreover have "takeWhile (\<lambda>c. \<not> p c) (a @ sep @ b) = a @ takeWhile (\<lambda>c. \<not> p c) (sep @ b)"
          using all by (rule takeWhile_append2)
        moreover have "dropWhile (\<lambda>c. \<not> p c) (a @ sep @ b) = dropWhile (\<lambda>c. \<not> p c) (sep @ b)"
          using all by (rule dropWhile_append2)
        ultimately show ?thesis using True sep s0 by simp
      next
        case False
        then obtain x where x: "x \<in> set a" "\<not> \<not> p x"
          by (auto simp: r_def dropWhile_eq_Nil_conv)
        from x have "takeWhile (\<lambda>c. \<not> p c) (a @ sep @ b) = takeWhile (\<lambda>c. \<not> p c) a"
          by (rule takeWhile_append1)
        moreover from x have "dropWhile (\<lambda>c. \<not> p c) (a @ sep @ b) = dropWhile (\<lambda>c. \<not> p c) a @ sep @ b"
          by (rule dropWhile_append1)
        ultimately show ?thesis by (simp add: w_def r_def)
      qed
      have "filter (\<lambda>t. t \<noteq> []) (re_split_runs p (c # cs @ sep @ b))
          = takeWhile (\<lambda>c. \<not> p c) (c # cs @ sep @ b)
            # filter (\<lambda>t. t \<noteq> []) (re_split_runs p (dropWhile (\<lambda>c. \<not> p c) (c # cs @ sep @ b)))"
        using False by (rule pieces_word)
      with Cons both have "filter (\<lambda>t. t \<noteq> []) (re_split_runs p (a @ sep @ b))
          = w # filter (\<lambda>t. t \<noteq> []) (re_split_runs p (r @ sep @ b))"
        by simp
      also have "\<dots> = w # (filter (\<lambda>t. t \<noteq> []) (re_split_runs p r) @ filter (\<lambda>t. t \<noteq> []) (re_split_runs p b))"
        using less [OF len] by simp
      finally have 1: "filter (\<lambda>t. t \<noteq> []) (re_split_runs p (a @ sep @ b))
          = (w # filter (\<lambda>t. t \<noteq> []) (re_split_runs p r)) @ filter (\<lambda>t. t \<noteq> []) (re_split_runs p b)"
        by simp
      have "filter (\<lambda>t. t \<noteq> []) (re_split_runs p (c # cs))
          = takeWhile (\<lambda>c. \<not> p c) (c # cs)
            # filter (\<lambda>t. t \<noteq> []) (re_split_runs p (dropWhile (\<lambda>c. \<not> p c) (c # cs)))"
        using False by (rule pieces_word)
      with Cons have "filter (\<lambda>t. t \<noteq> []) (re_split_runs p a)
          = w # filter (\<lambda>t. t \<noteq> []) (re_split_runs p r)"
        by (simp add: w_def r_def)
      with 1 show ?thesis by simp
    qed
  qed
qed

lemma pieces_single_word:
  assumes "w \<noteq> []" and "\<forall>c \<in> set w. \<not> p c"
  shows "filter (\<lambda>t. t \<noteq> []) (re_split_runs p w) = [w]"
proof -
  obtain c cs where w: "w = c # cs" using assms by (cases w) auto
  with assms have c: "\<not> p c" by simp
  have "filter (\<lambda>t. t \<noteq> []) (re_split_runs p (c # cs))
          = takeWhile (\<lambda>c. \<not> p c) (c # cs)
            # filter (\<lambda>t. t \<noteq> []) (re_split_runs p (dropWhile (\<lambda>c. \<not> p c) (c # cs)))"
    using c by (rule pieces_word)
  moreover from assms w have "takeWhile (\<lambda>c. \<not> p c) (c # cs) = c # cs"
    "dropWhile (\<lambda>c. \<not> p c) (c # cs) = []"
    by auto
  ultimately show ?thesis using w by simp
qed

lemma pieces_elements:
  "t \<in> set (re_split_runs p s) \<Longrightarrow> x \<in> set t \<Longrightarrow> \<not> p x"
proof (induction p s arbitrary: t rule: re_split_runs.induct)
  case (1 p)
  then show ?case by simp
next
  case (2 p c cs)
  show ?case
  proof (cases "p c")
    case True
    with "2.prems" have "t \<in> set (re_split_runs p (dropWhile p cs))" by auto
    from "2.IH"(1) [OF True this "2.prems"(2)] show ?thesis .
  next
    case False
    obtain piece pieces where R: "re_split_runs p cs = piece # pieces"
      using re_split_runs_nonempty [of p cs] by (cases "re_split_runs p cs") auto
    with False "2.prems"(1) have "t = c # piece \<or> t \<in> set pieces" by simp
    then show ?thesis
    proof
      assume t: "t = c # piece"
      show ?thesis
      proof (cases "x = c")
        case True
        with False show ?thesis by simp
      next
        case neq: False
        with t "2.prems"(2) have "x \<in> set piece" by simp
        moreover have "piece \<in> set (re_split_runs p cs)" using R by simp
        ultimately show ?thesis using "2.IH"(2) [OF False] by blast
      qed
    next
      assume "t \<in> set pieces"
      then have "t \<in> set (re_split_runs p cs)" using R by simp
      with "2.prems"(2) show ?thesis using "2.IH"(2) [OF False] by blast
    qed
  qed
qed

lemma re_split_runs_map:
  assumes "\<And>c. p (f c) = p c"
  shows "re_split_runs p (map f s) = map (map f) (re_split_runs p s)"
  using assms
proof (induction p s rule: re_split_runs.induct)
  case (1 p)
  show ?case by simp
next
  case (2 p c cs)
  have "(\<lambda>x. p (f x)) = p" using "2.prems" by auto
  then have dw: "dropWhile p (map f cs) = map f (dropWhile p cs)"
    by (simp add: dropWhile_map comp_def)
  show ?case
  proof (cases "p c")
    case True
    with 2 dw show ?thesis by simp
  next
    case False
    with 2 have "re_split_runs p (map f cs) = map (map f) (re_split_runs p cs)" by simp
    with False "2.prems" show ?thesis
      using re_split_runs_nonempty [of p cs] by (auto split: list.splits)
  qed
qed

section \<open>Properties of the parser\<close>

lemma line_fields_pointer:
  assumes "line_fields to_int l = Some (level, Some p, tag, v)"
  shows "p \<noteq> [] \<and> v = []"
  using assms
  by (auto simp: line_fields_def split: if_splits list.splits option.splits)

lemma parse_line_skip: "line_fields to_int l = None \<Longrightarrow> parse_line to_int s l = s"
  by (simp add: parse_line_def)

lemma split_space_nonempty: "split_space n s \<noteq> []"
  by (cases n) auto

lemma skipped_line_parse_line:
  assumes "skipped_line to_int l"
  shows "parse_line to_int s l = s"
proof (cases "line_fields to_int l")
  case None
  then show ?thesis by (simp add: parse_line_def)
next
  case (Some f)
  obtain level pointer tag v where f: "f = (level, pointer, tag, v)"
    by (cases f) auto
  from Some f have nonblank: "line_text l \<noteq> []"
    by (auto simp: line_fields_def split: if_splits)
  from Some f have len: "length (line_parts l) \<in> {2, 3}"
    by (auto simp: line_fields_def split: if_splits list.splits)
  from Some f have "to_int (hd (line_parts l)) \<noteq> None"
    by (auto simp: line_fields_def split: if_splits list.splits option.splits)
  with assms nonblank len Some f have "3 \<le> level"
    by (auto simp add: skipped_line_def)
  with Some f show ?thesis by (simp add: parse_line_def)
qed

lemma parse_lines_append: "parse_lines to_int s (xs @ ys) = parse_lines to_int (parse_lines to_int s xs) ys"
  by (simp add: parse_lines_def)

lemma parse_lines_Cons: "parse_lines to_int s (l # ls) = parse_lines to_int (parse_line to_int s l) ls"
  by (simp add: parse_lines_def)

lemma parse_lines_Nil: "parse_lines to_int s [] = s"
  by (simp add: parse_lines_def)

lemma skipped_line_parse:
  assumes "skipped_line to_int l"
  shows "parse to_int (xs @ l # ys) = parse to_int (xs @ ys)"
  using skipped_line_parse_line [OF assms]
  by (simp add: parse_def parse_lines_append parse_lines_Cons)

lemma level0_individual:
  assumes "line_fields to_int l = Some (0, Some p, ''INDI'', v)"
  shows "parse_line to_int s l =
    s\<lparr>individuals := AList.update p (new_individual p) (individuals s),
      current_individual := Some (new_individual p),
      current_family := None, current_section := None\<rparr>"
  using assms line_fields_pointer [OF assms]
  by (simp add: parse_line_def level0_def Let_def truthy_def assign_individual_def new_individual_def)

lemma level0_family:
  assumes "line_fields to_int l = Some (0, Some p, ''FAM'', v)"
  shows "parse_line to_int s l =
    s\<lparr>families := AList.update p (new_family p) (families s),
      current_family := Some (new_family p),
      current_individual := None, current_section := None\<rparr>"
  using assms line_fields_pointer [OF assms]
  by (simp add: parse_line_def level0_def Let_def truthy_def assign_family_def new_family_def)

lemma level0_other:
  assumes "line_fields to_int l = Some (0, pointer, tag, v)"
    and "pointer = None \<or> (tag \<noteq> ''INDI'' \<and> tag \<noteq> ''FAM'')"
  shows "parse_line to_int s l =
    s\<lparr>current_individual := None, current_family := None, current_section := None\<rparr>"
  using assms
  by (auto simp add: parse_line_def level0_def Let_def truthy_def)

lemma assign_individual_frame:
  "families (assign_individual s ind) = families s"
  "current_family (assign_individual s ind) = current_family s"
  "current_section (assign_individual s ind) = current_section s"
  "current_individual (assign_individual s ind) = Some ind"
  "map_of (individuals (assign_individual s ind)) = (map_of (individuals s))(ind_id ind \<mapsto> ind)"
  by (simp_all add: assign_individual_def update_conv')

lemma assign_family_frame:
  "individuals (assign_family s fam) = individuals s"
  "current_individual (assign_family s fam) = current_individual s"
  "current_section (assign_family s fam) = current_section s"
  "current_family (assign_family s fam) = Some fam"
  "map_of (families (assign_family s fam)) = (map_of (families s))(fam_id fam \<mapsto> fam)"
  by (simp_all add: assign_family_def update_conv')

lemma level1_open:
  "open_individual (level1 s tag v) = open_individual s"
  "open_family (level1 s tag v) = open_family s"
  by (simp_all add: level1_def Let_def open_individual_def open_family_def
      assign_individual_frame assign_family_frame split: option.splits)

lemma level2_open:
  "open_individual (level2 s tag v) = open_individual s"
  "open_family (level2 s tag v) = open_family s"
  by (simp_all add: level2_def open_individual_def open_family_def
      assign_individual_frame assign_family_frame split: option.splits)

lemma level1_individuals:
  assumes "open_individual s \<noteq> Some k"
  shows "map_of (individuals (level1 s tag v)) k = map_of (individuals s) k"
proof (cases "current_individual s")
  case None
  then show ?thesis
    by (simp add: level1_def Let_def assign_family_frame split: option.splits)
next
  case (Some ind)
  with assms have "ind_id ind \<noteq> k" by (simp add: open_individual_def)
  with Some show ?thesis
    by (simp add: level1_def Let_def assign_individual_frame)
qed

lemma level2_individuals:
  assumes "open_individual s \<noteq> Some k"
  shows "map_of (individuals (level2 s tag v)) k = map_of (individuals s) k"
proof (cases "current_individual s")
  case None
  then show ?thesis
    by (simp add: level2_def assign_family_frame split: option.splits)
next
  case (Some ind)
  with assms have "ind_id ind \<noteq> k" by (simp add: open_individual_def)
  with Some show ?thesis
    by (simp add: level2_def assign_individual_frame)
qed

lemma level1_families:
  assumes "open_family s \<noteq> Some k"
  shows "map_of (families (level1 s tag v)) k = map_of (families s) k"
proof (cases "current_individual s")
  case (Some ind)
  then show ?thesis by (simp add: level1_def Let_def assign_individual_frame)
next
  case None
  show ?thesis
  proof (cases "current_family s")
    case empty: None
    with None show ?thesis by (simp add: level1_def Let_def)
  next
    case (Some fam)
    with assms have "fam_id fam \<noteq> k" by (simp add: open_family_def)
    with Some None show ?thesis by (simp add: level1_def Let_def assign_family_frame)
  qed
qed

lemma level2_families:
  assumes "open_family s \<noteq> Some k"
  shows "map_of (families (level2 s tag v)) k = map_of (families s) k"
proof (cases "current_individual s")
  case (Some ind)
  then show ?thesis by (simp add: level2_def assign_individual_frame)
next
  case None
  show ?thesis
  proof (cases "current_family s")
    case empty: None
    with None show ?thesis by (simp add: level2_def)
  next
    case (Some fam)
    with assms have "fam_id fam \<noteq> k" by (simp add: open_family_def)
    with Some None show ?thesis by (simp add: level2_def assign_family_frame)
  qed
qed

lemma level0_individuals:
  "\<not> (tag = ''INDI'' \<and> pointer = Some k) \<Longrightarrow>
     map_of (individuals (level0 s pointer tag)) k = map_of (individuals s) k
     \<and> open_individual (level0 s pointer tag) \<noteq> Some k"
  by (cases pointer)
     (auto simp: level0_def Let_def truthy_def open_individual_def new_individual_def
      assign_individual_frame assign_family_frame)

lemma level0_families:
  "\<not> (tag = ''FAM'' \<and> pointer = Some k) \<Longrightarrow>
     map_of (families (level0 s pointer tag)) k = map_of (families s) k
     \<and> open_family (level0 s pointer tag) \<noteq> Some k"
  by (cases pointer)
     (auto simp: level0_def Let_def truthy_def open_family_def new_family_def
      assign_individual_frame assign_family_frame)

lemma parse_line_individuals:
  assumes "open_individual s \<noteq> Some k" and "\<not> opens_individual to_int l k"
  shows "map_of (individuals (parse_line to_int s l)) k = map_of (individuals s) k
     \<and> open_individual (parse_line to_int s l) \<noteq> Some k"
proof (cases "line_fields to_int l")
  case None
  with assms show ?thesis by (simp add: parse_line_def)
next
  case (Some f)
  obtain level pointer tag v where f: "f = (level, pointer, tag, v)"
    by (cases f) auto
  consider "level = 0" | "level = 1" | "level = 2" | "level \<noteq> 0 \<and> level \<noteq> 1 \<and> level \<noteq> 2"
    by blast
  then show ?thesis
  proof cases
    case 1
    with assms(2) Some f have "\<not> (tag = ''INDI'' \<and> pointer = Some k)"
      by (auto simp add: opens_individual_def)
    from level0_individuals [OF this] 1 Some f show ?thesis
      by (simp add: parse_line_def)
  next
    case 2
    with assms(1) Some f show ?thesis
      by (simp add: parse_line_def level1_open level1_individuals)
  next
    case 3
    with assms(1) Some f show ?thesis
      by (simp add: parse_line_def level2_open level2_individuals)
  next
    case 4
    with assms Some f show ?thesis by (simp add: parse_line_def)
  qed
qed

lemma parse_line_families:
  assumes "open_family s \<noteq> Some k" and "\<not> opens_family to_int l k"
  shows "map_of (families (parse_line to_int s l)) k = map_of (families s) k
     \<and> open_family (parse_line to_int s l) \<noteq> Some k"
proof (cases "line_fields to_int l")
  case None
  with assms show ?thesis by (simp add: parse_line_def)
next
  case (Some f)
  obtain level pointer tag v where f: "f = (level, pointer, tag, v)"
    by (cases f) auto
  consider "level = 0" | "level = 1" | "level = 2" | "level \<noteq> 0 \<and> level \<noteq> 1 \<and> level \<noteq> 2"
    by blast
  then show ?thesis
  proof cases
    case 1
    with assms(2) Some f have "\<not> (tag = ''FAM'' \<and> pointer = Some k)"
      by (auto simp add: opens_family_def)
    from level0_families [OF this] 1 Some f show ?thesis
      by (simp add: parse_line_def)
  next
    case 2
    with assms(1) Some f show ?thesis
      by (simp add: parse_line_def level1_open level1_families)
  next
    case 3
    with assms(1) Some f show ?thesis
      by (simp add: parse_line_def level2_open level2_families)
  next
    case 4
    with assms Some f show ?thesis by (simp add: parse_line_def)
  qed
qed

lemma parse_lines_individuals:
  assumes "open_individual s \<noteq> Some k" and "\<forall>l \<in> set ls. \<not> opens_individual to_int l k"
  shows "map_of (individuals (parse_lines to_int s ls)) k = map_of (individuals s) k"
  using assms
proof (induction ls arbitrary: s)
  case Nil
  then show ?case by (simp add: parse_lines_Nil)
next
  case (Cons l ls)
  from Cons.prems have step: "map_of (individuals (parse_line to_int s l)) k = map_of (individuals s) k
     \<and> open_individual (parse_line to_int s l) \<noteq> Some k"
    by (intro parse_line_individuals) auto
  with Cons.prems have "map_of (individuals (parse_lines to_int (parse_line to_int s l) ls)) k
      = map_of (individuals (parse_line to_int s l)) k"
    by (intro Cons.IH) auto
  with step show ?case by (simp add: parse_lines_Cons)
qed

lemma parse_lines_families:
  assumes "open_family s \<noteq> Some k" and "\<forall>l \<in> set ls. \<not> opens_family to_int l k"
  shows "map_of (families (parse_lines to_int s ls)) k = map_of (families s) k"
  using assms
proof (induction ls arbitrary: s)
  case Nil
  then show ?case by (simp add: parse_lines_Nil)
next
  case (Cons l ls)
  from Cons.prems have step: "map_of (families (parse_line to_int s l)) k = map_of (families s) k
     \<and> open_family (parse_line to_int s l) \<noteq> Some k"
    by (intro parse_line_families) auto
  with Cons.prems have "map_of (families (parse_lines to_int (parse_line to_int s l) ls)) k
      = map_of (families (parse_line to_int s l)) k"
    by (intro Cons.IH) auto
  with step show ?case by (simp add: parse_lines_Cons)
qed


lemma aliased_parse_line:
  assumes "aliased s"
  shows "aliased (parse_line to_int s l)"
proof (cases "line_fields to_int l")
  case None
  with assms show ?thesis by (simp add: parse_line_def)
next
  case (Some f)
  obtain level pointer tag v where f: "f = (level, pointer, tag, v)"
    by (cases f) auto
  have l0: "aliased (level0 s pointer tag)"
    by (simp add: aliased_def level0_def Let_def assign_individual_frame assign_family_frame)
  have l1: "aliased (level1 s tag v)"
    using assms
    by (auto simp: aliased_def level1_def Let_def assign_individual_frame assign_family_frame
        split: option.splits)
  have l2: "aliased (level2 s tag v)"
    using assms
    by (auto simp: aliased_def level2_def assign_individual_frame assign_family_frame
        split: option.splits)
  from Some f l0 l1 l2 assms show ?thesis
    by (simp add: parse_line_def)
qed

lemma aliased_parse_lines: "aliased s \<Longrightarrow> aliased (parse_lines to_int s ls)"
  by (induction ls arbitrary: s) (simp_all add: parse_lines_Nil parse_lines_Cons aliased_parse_line)

lemma aliased_reachable: "aliased (parse_lines to_int initial_state ls)"
  by (rule aliased_parse_lines) (simp add: aliased_def initial_state_def)

text \<open>
  Claim C1. For every function \<open>to_int\<close> in the place of the builtin \<^verbatim>\<open>int\<close>: a line whose
  level token reads as 0, whose tag token is a pointer between two \<open>@\<close> and whose value is
  \<open>INDI\<close> (or \<open>FAM\<close>) stores a fresh Individual (or Family) under that pointer and makes it
  the current record; every other level-0 line clears the current individual, family and
  section and changes neither dictionary. From a level-0 line on, the record stored under
  an identifier \<open>k\<close> stays as it is, whatever lines follow, as long as no level-0 line
  opens \<open>k\<close> again: in particular no line of level 1 or 2 changes a closed record.
\<close>

theorem level0_opens_record_closes_context:
  "(line_fields to_int l = Some (0, Some p, ''INDI'', v) \<longrightarrow>
      parse_line to_int s l =
        s\<lparr>individuals := AList.update p (new_individual p) (individuals s),
          current_individual := Some (new_individual p),
          current_family := None, current_section := None\<rparr>
      \<and> map_of (individuals (parse_line to_int s l)) p = Some (new_individual p))
   \<and> (line_fields to_int l = Some (0, Some p, ''FAM'', v) \<longrightarrow>
      parse_line to_int s l =
        s\<lparr>families := AList.update p (new_family p) (families s),
          current_family := Some (new_family p),
          current_individual := None, current_section := None\<rparr>
      \<and> map_of (families (parse_line to_int s l)) p = Some (new_family p))
   \<and> (line_fields to_int l = Some (0, pointer, tag, v)
        \<and> (pointer = None \<or> (tag \<noteq> ''INDI'' \<and> tag \<noteq> ''FAM'')) \<longrightarrow>
      parse_line to_int s l =
        s\<lparr>current_individual := None, current_family := None, current_section := None\<rparr>)
   \<and> (line_fields to_int l = Some (0, pointer, tag, v) \<and> \<not> opens_individual to_int l k
        \<and> (\<forall>l' \<in> set ls. \<not> opens_individual to_int l' k) \<longrightarrow>
      map_of (individuals (parse_lines to_int (parse_line to_int s l) ls)) k = map_of (individuals s) k)
   \<and> (line_fields to_int l = Some (0, pointer, tag, v) \<and> \<not> opens_family to_int l k
        \<and> (\<forall>l' \<in> set ls. \<not> opens_family to_int l' k) \<longrightarrow>
      map_of (families (parse_lines to_int (parse_line to_int s l) ls)) k = map_of (families s) k)"
proof (intro conjI impI)
  assume a: "line_fields to_int l = Some (0, Some p, ''INDI'', v)"
  show "parse_line to_int s l =
        s\<lparr>individuals := AList.update p (new_individual p) (individuals s),
          current_individual := Some (new_individual p),
          current_family := None, current_section := None\<rparr>"
    by (rule level0_individual [OF a])
  then show "map_of (individuals (parse_line to_int s l)) p = Some (new_individual p)"
    by (simp add: update_conv')
next
  assume a: "line_fields to_int l = Some (0, Some p, ''FAM'', v)"
  show "parse_line to_int s l =
        s\<lparr>families := AList.update p (new_family p) (families s),
          current_family := Some (new_family p),
          current_individual := None, current_section := None\<rparr>"
    by (rule level0_family [OF a])
  then show "map_of (families (parse_line to_int s l)) p = Some (new_family p)"
    by (simp add: update_conv')
next
  assume "line_fields to_int l = Some (0, pointer, tag, v)
        \<and> (pointer = None \<or> (tag \<noteq> ''INDI'' \<and> tag \<noteq> ''FAM''))"
  then show "parse_line to_int s l =
        s\<lparr>current_individual := None, current_family := None, current_section := None\<rparr>"
    by (intro level0_other) auto
next
  assume a: "line_fields to_int l = Some (0, pointer, tag, v) \<and> \<not> opens_individual to_int l k
        \<and> (\<forall>l' \<in> set ls. \<not> opens_individual to_int l' k)"
  then have "\<not> (tag = ''INDI'' \<and> pointer = Some k)"
    by (auto simp: opens_individual_def)
  from level0_individuals [OF this] a
  have closed: "map_of (individuals (parse_line to_int s l)) k = map_of (individuals s) k
      \<and> open_individual (parse_line to_int s l) \<noteq> Some k"
    by (simp add: parse_line_def)
  with a have "map_of (individuals (parse_lines to_int (parse_line to_int s l) ls)) k
      = map_of (individuals (parse_line to_int s l)) k"
    by (intro parse_lines_individuals) auto
  with closed show "map_of (individuals (parse_lines to_int (parse_line to_int s l) ls)) k
      = map_of (individuals s) k"
    by simp
next
  assume a: "line_fields to_int l = Some (0, pointer, tag, v) \<and> \<not> opens_family to_int l k
        \<and> (\<forall>l' \<in> set ls. \<not> opens_family to_int l' k)"
  then have "\<not> (tag = ''FAM'' \<and> pointer = Some k)"
    by (auto simp: opens_family_def)
  from level0_families [OF this] a
  have closed: "map_of (families (parse_line to_int s l)) k = map_of (families s) k
      \<and> open_family (parse_line to_int s l) \<noteq> Some k"
    by (simp add: parse_line_def)
  with a have "map_of (families (parse_lines to_int (parse_line to_int s l) ls)) k
      = map_of (families (parse_line to_int s l)) k"
    by (intro parse_lines_families) auto
  with closed show "map_of (families (parse_lines to_int (parse_line to_int s l) ls)) k
      = map_of (families s) k"
    by simp
qed

theorem level0_opens_record_closes_context_witness:
  "map_of (individuals (parse_line py_int initial_state ''0 @I1@ INDI'')) ''@I1@''
     = Some (new_individual ''@I1@'')
   \<and> map_of (families (parse_line py_int initial_state ''0 @F1@ FAM'')) ''@F1@''
     = Some (new_family ''@F1@'')
   \<and> parse_line py_int (parse_lines py_int initial_state [''0 @I1@ INDI'', ''1 NAME Ann'']) ''0 TRLR''
     = (parse_lines py_int initial_state [''0 @I1@ INDI'', ''1 NAME Ann''])
         \<lparr>current_individual := None, current_family := None, current_section := None\<rparr>
   \<and> map_of (individuals
        (parse_lines py_int (parse_line py_int (parse_lines py_int initial_state [''0 @I1@ INDI'', ''1 NAME Ann'']) ''0 TRLR'')
           [''1 NAME Bob'', ''1 BIRT'', ''2 DATE 1930''])) ''@I1@''
     = map_of (individuals (parse_lines py_int initial_state [''0 @I1@ INDI'', ''1 NAME Ann''])) ''@I1@''
   \<and> map_of (families
        (parse_lines py_int (parse_line py_int (parse_lines py_int initial_state [''0 @F1@ FAM'', ''1 CHIL @I1@'']) ''0 TRLR'')
           [''1 CHIL @I2@'', ''1 MARR'', ''2 DATE 1930''])) ''@F1@''
     = map_of (families (parse_lines py_int initial_state [''0 @F1@ FAM'', ''1 CHIL @I1@''])) ''@F1@''"
proof -
  have indi: "line_fields py_int ''0 @I1@ INDI'' = Some (0, Some ''@I1@'', ''INDI'', [])"
    by code_simp
  have fam: "line_fields py_int ''0 @F1@ FAM'' = Some (0, Some ''@F1@'', ''FAM'', [])"
    by code_simp
  have trlr: "line_fields py_int ''0 TRLR'' = Some (0, None, ''TRLR'', [])"
    by code_simp
  have no_indi: "\<not> opens_individual py_int ''0 TRLR'' ''@I1@''"
    "\<forall>l' \<in> set [''1 NAME Bob'', ''1 BIRT'', ''2 DATE 1930'']. \<not> opens_individual py_int l' ''@I1@''"
    by code_simp+
  have no_fam: "\<not> opens_family py_int ''0 TRLR'' ''@F1@''"
    "\<forall>l' \<in> set [''1 CHIL @I2@'', ''1 MARR'', ''2 DATE 1930'']. \<not> opens_family py_int l' ''@F1@''"
    by code_simp+
  from level0_opens_record_closes_context
    [where l = "''0 @I1@ INDI''" and p = "''@I1@''" and v = "[]" and s = initial_state and to_int = py_int] indi
  have 1: "map_of (individuals (parse_line py_int initial_state ''0 @I1@ INDI'')) ''@I1@''
     = Some (new_individual ''@I1@'')"
    by blast
  from level0_opens_record_closes_context
    [where l = "''0 @F1@ FAM''" and p = "''@F1@''" and v = "[]" and s = initial_state and to_int = py_int] fam
  have 2: "map_of (families (parse_line py_int initial_state ''0 @F1@ FAM'')) ''@F1@''
     = Some (new_family ''@F1@'')"
    by blast
  from level0_opens_record_closes_context
    [where to_int = py_int and l = "''0 TRLR''" and pointer = None and tag = "''TRLR''" and v = "[]"
       and s = "parse_lines py_int initial_state [''0 @I1@ INDI'', ''1 NAME Ann'']"] trlr
  have 3: "parse_line py_int (parse_lines py_int initial_state [''0 @I1@ INDI'', ''1 NAME Ann'']) ''0 TRLR''
     = (parse_lines py_int initial_state [''0 @I1@ INDI'', ''1 NAME Ann''])
         \<lparr>current_individual := None, current_family := None, current_section := None\<rparr>"
    by blast
  from level0_opens_record_closes_context
    [where to_int = py_int and l = "''0 TRLR''" and pointer = None and tag = "''TRLR''" and v = "[]"
       and k = "''@I1@''" and ls = "[''1 NAME Bob'', ''1 BIRT'', ''2 DATE 1930'']"
       and s = "parse_lines py_int initial_state [''0 @I1@ INDI'', ''1 NAME Ann'']"] trlr no_indi
  have 4: "map_of (individuals
        (parse_lines py_int (parse_line py_int (parse_lines py_int initial_state [''0 @I1@ INDI'', ''1 NAME Ann'']) ''0 TRLR'')
           [''1 NAME Bob'', ''1 BIRT'', ''2 DATE 1930''])) ''@I1@''
     = map_of (individuals (parse_lines py_int initial_state [''0 @I1@ INDI'', ''1 NAME Ann''])) ''@I1@''"
    by blast
  from level0_opens_record_closes_context
    [where to_int = py_int and l = "''0 TRLR''" and pointer = None and tag = "''TRLR''" and v = "[]"
       and k = "''@F1@''" and ls = "[''1 CHIL @I2@'', ''1 MARR'', ''2 DATE 1930'']"
       and s = "parse_lines py_int initial_state [''0 @F1@ FAM'', ''1 CHIL @I1@'']"] trlr no_fam
  have 5: "map_of (families
        (parse_lines py_int (parse_line py_int (parse_lines py_int initial_state [''0 @F1@ FAM'', ''1 CHIL @I1@'']) ''0 TRLR'')
           [''1 CHIL @I2@'', ''1 MARR'', ''2 DATE 1930''])) ''@F1@''
     = map_of (families (parse_lines py_int initial_state [''0 @F1@ FAM'', ''1 CHIL @I1@''])) ''@F1@''"
    by blast
  from 1 2 3 4 5 show ?thesis by blast
qed

text \<open>
  Claim C2. The parser has no failing path: the only exception raised in the loop is the
  \<^verbatim>\<open>ValueError\<close> of \<^verbatim>\<open>int\<close>, which the loop catches, so \<open>parse\<close> is a total function that
  returns the two dictionaries. For every function \<open>to_int\<close> in the place of \<^verbatim>\<open>int\<close>: a
  blank line, a line that does not split into two or three tokens, a line whose level
  token \<open>to_int\<close> refuses and a line of level three or more leave the whole state of the
  loop as it is, so that dropping such a line from the input does not change the result.
\<close>

theorem skipped_lines_change_nothing:
  "skipped_line to_int l \<Longrightarrow>
     parse_line to_int s l = s \<and> parse to_int (xs @ l # ys) = parse to_int (xs @ ys)"
  using skipped_line_parse_line [of to_int l s] skipped_line_parse [of to_int l xs ys]
  by simp

theorem skipped_lines_change_nothing_witness:
  "skipped_line py_int [] \<and> skipped_line py_int ''0'' \<and> skipped_line py_int ''x NAME Ann''
   \<and> skipped_line py_int ''3 DATE 1930'' \<and> skipped_line py_int (CHR 0x1C # ''1 NAME Bob'')
   \<and> parse_line py_int initial_state ''3 DATE 1930'' = initial_state
   \<and> parse py_int ([''0 @I1@ INDI''] @ ''x NAME Ann'' # [''1 NAME Bob''])
     = parse py_int ([''0 @I1@ INDI''] @ [''1 NAME Bob''])"
proof -
  have skipped: "skipped_line py_int []" "skipped_line py_int ''0''" "skipped_line py_int ''x NAME Ann''"
    "skipped_line py_int ''3 DATE 1930''" "skipped_line py_int (CHR 0x1C # ''1 NAME Bob'')"
    by code_simp+
  from skipped(4) have "parse_line py_int initial_state ''3 DATE 1930'' = initial_state"
    using skipped_lines_change_nothing [of py_int "''3 DATE 1930''" initial_state] by blast
  moreover from skipped(3)
  have "parse py_int ([''0 @I1@ INDI''] @ ''x NAME Ann'' # [''1 NAME Bob''])
     = parse py_int ([''0 @I1@ INDI''] @ [''1 NAME Bob''])"
    using skipped_lines_change_nothing [of py_int "''x NAME Ann''" _ "[''0 @I1@ INDI'']" "[''1 NAME Bob'']"]
    by blast
  ultimately show ?thesis using skipped by blast
qed

section \<open>Properties of collect_descendants\<close>

lemma new_children_set:
  "set (new_children fms D person) = set (children_of inds fms p) - D" if "map_of inds p = Some person"
  using that by (auto simp: new_children_def children_of_def split: option.splits)

lemma children_of_cases:
  assumes "c \<in> set (children_of inds fms p)"
  shows "\<exists>person f fm. map_of inds p = Some person \<and> f \<in> set (fams person)
           \<and> map_of fms f = Some fm \<and> c \<in> set (children fm)"
proof (cases "map_of inds p")
  case None
  with assms show ?thesis by (simp add: children_of_def)
next
  case (Some person)
  with assms obtain f where f: "f \<in> set (fams person)"
    and c: "c \<in> set (case map_of fms f of None \<Rightarrow> [] | Some fm \<Rightarrow> children fm)"
    by (auto simp: children_of_def)
  then obtain fm where "map_of fms f = Some fm" "c \<in> set (children fm)"
    by (cases "map_of fms f") auto
  with Some f show ?thesis by blast
qed

lemma children_of_subset: "set (children_of inds fms p) \<subseteq> all_children fms"
proof
  fix c assume "c \<in> set (children_of inds fms p)"
  from children_of_cases [OF this]
  obtain f fm where "map_of fms f = Some fm" and c: "c \<in> set (children fm)"
    by blast
  then have "(f, fm) \<in> set fms" by (auto dest: map_of_SomeD)
  then have "fm \<in> snd ` set fms" by force
  with c show "c \<in> all_children fms" by (auto simp: all_children_def)
qed

lemma finite_all_children: "finite (all_children fms)"
  by (simp add: all_children_def)

lemma wf_loop_order: "wf (loop_order fms)"
  by (simp add: loop_order_def)

lemma loop_order_iff:
  "((D', W'), (D, W)) \<in> loop_order fms \<longleftrightarrow>
     card ((set W' \<union> all_children fms) - D') < card ((set W \<union> all_children fms) - D)
     \<or> (card ((set W' \<union> all_children fms) - D') = card ((set W \<union> all_children fms) - D)
        \<and> length W' < length W)"
  by (auto simp: loop_order_def)

lemma collect_loop_total_aux:
  "\<exists>S. collect_loop inds fms (fst s) (snd s) = Some S
     \<and> fst s \<union> set (snd s) \<subseteq> S
     \<and> ((\<forall>x \<in> fst s. set (children_of inds fms x) \<subseteq> fst s \<union> set (snd s)) \<longrightarrow>
          (\<forall>x \<in> S. set (children_of inds fms x) \<subseteq> S))
     \<and> (\<forall>T. (\<forall>x \<in> T. set (children_of inds fms x) \<subseteq> T) \<and> fst s \<union> set (snd s) \<subseteq> T \<longrightarrow> S \<subseteq> T)"
proof (induct s rule: wf_induct_rule [OF wf_loop_order [of fms]])
  case (1 s)
  obtain D W where s: "s = (D, W)" by (cases s) auto
  have 2: "\<exists>S. collect_loop inds fms D' W' = Some S
     \<and> D' \<union> set W' \<subseteq> S
     \<and> ((\<forall>x \<in> D'. set (children_of inds fms x) \<subseteq> D' \<union> set W') \<longrightarrow>
          (\<forall>x \<in> S. set (children_of inds fms x) \<subseteq> S))
     \<and> (\<forall>T. (\<forall>x \<in> T. set (children_of inds fms x) \<subseteq> T) \<and> D' \<union> set W' \<subseteq> T \<longrightarrow> S \<subseteq> T)"
    if "((D', W'), (D, W)) \<in> loop_order fms" for D' W'
    using 1 [of "(D', W')"] that s by simp
  have "\<exists>S. collect_loop inds fms D W = Some S
     \<and> D \<union> set W \<subseteq> S
     \<and> ((\<forall>x \<in> D. set (children_of inds fms x) \<subseteq> D \<union> set W) \<longrightarrow>
          (\<forall>x \<in> S. set (children_of inds fms x) \<subseteq> S))
     \<and> (\<forall>T. (\<forall>x \<in> T. set (children_of inds fms x) \<subseteq> T) \<and> D \<union> set W \<subseteq> T \<longrightarrow> S \<subseteq> T)"
  proof (cases "W = []")
    case True
    then show ?thesis by (subst collect_loop.simps) simp
  next
    case False
    define current where "current = last W"
    define rest where "rest = butlast W"
    from False have W: "W = rest @ [current]"
      by (simp add: current_def rest_def)
    have fin: "finite ((set W \<union> all_children fms) - D)"
      by (simp add: finite_all_children)
    show ?thesis
    proof (cases "current \<in> D")
      case True
      have "(set rest \<union> all_children fms) - D \<subseteq> (set W \<union> all_children fms) - D"
        using W by auto
      with fin have "card ((set rest \<union> all_children fms) - D) \<le> card ((set W \<union> all_children fms) - D)"
        by (rule card_mono)
      moreover have "length rest < length W" using W by simp
      ultimately have "((D, rest), (D, W)) \<in> loop_order fms"
        by (auto simp: loop_order_iff)
      from 2 [OF this] obtain S where S: "collect_loop inds fms D rest = Some S"
        "D \<union> set rest \<subseteq> S"
        "(\<forall>x \<in> D. set (children_of inds fms x) \<subseteq> D \<union> set rest) \<longrightarrow>
          (\<forall>x \<in> S. set (children_of inds fms x) \<subseteq> S)"
        "\<forall>T. (\<forall>x \<in> T. set (children_of inds fms x) \<subseteq> T) \<and> D \<union> set rest \<subseteq> T \<longrightarrow> S \<subseteq> T"
        by blast
      have eq: "collect_loop inds fms D W = Some S"
        using True S(1) False by (subst collect_loop.simps) (simp add: current_def rest_def Let_def)
      have sets: "D \<union> set W = D \<union> set rest" using True W by auto
      show ?thesis
        unfolding sets
      proof (intro exI [of _ S] conjI)
        show "collect_loop inds fms D W = Some S" by (rule eq)
        show "D \<union> set rest \<subseteq> S" by (rule S(2))
        show "(\<forall>x \<in> D. set (children_of inds fms x) \<subseteq> D \<union> set rest) \<longrightarrow>
          (\<forall>x \<in> S. set (children_of inds fms x) \<subseteq> S)" by (rule S(3))
        show "\<forall>T. (\<forall>x \<in> T. set (children_of inds fms x) \<subseteq> T) \<and> D \<union> set rest \<subseteq> T \<longrightarrow> S \<subseteq> T"
          by (rule S(4))
      qed
    next
      case False
      define D' where "D' = insert current D"
      define new where "new = (case map_of inds current of None \<Rightarrow> [] | Some person \<Rightarrow> new_children fms D' person)"
      have new: "set new = set (children_of inds fms current) - D'"
      proof (cases "map_of inds current")
        case None
        then show ?thesis by (simp add: new_def children_of_def)
      next
        case (Some person)
        then show ?thesis by (simp add: new_def new_children_set [OF Some])
      qed
      have sub: "(set (rest @ new) \<union> all_children fms) - D' \<subseteq> ((set W \<union> all_children fms) - D) - {current}"
        using W new children_of_subset [of inds fms current] by (auto simp: D'_def)
      have "current \<in> (set W \<union> all_children fms) - D" using W False by simp
      with fin have "card (((set W \<union> all_children fms) - D) - {current}) < card ((set W \<union> all_children fms) - D)"
        by (intro card_Diff1_less) auto
      moreover from sub fin have "card ((set (rest @ new) \<union> all_children fms) - D')
          \<le> card (((set W \<union> all_children fms) - D) - {current})"
        by (intro card_mono) auto
      ultimately have "((D', rest @ new), (D, W)) \<in> loop_order fms"
        by (auto simp: loop_order_iff)
      from 2 [OF this] obtain S where S: "collect_loop inds fms D' (rest @ new) = Some S"
        "D' \<union> set (rest @ new) \<subseteq> S"
        "(\<forall>x \<in> D'. set (children_of inds fms x) \<subseteq> D' \<union> set (rest @ new)) \<longrightarrow>
          (\<forall>x \<in> S. set (children_of inds fms x) \<subseteq> S)"
        "\<forall>T. (\<forall>x \<in> T. set (children_of inds fms x) \<subseteq> T) \<and> D' \<union> set (rest @ new) \<subseteq> T \<longrightarrow> S \<subseteq> T"
        by blast
      have eq: "collect_loop inds fms D W = Some S"
        using False S(1) \<open>W \<noteq> []\<close>
        by (subst collect_loop.simps)
           (simp add: current_def [symmetric] rest_def [symmetric] Let_def D'_def new_def split: option.splits)
      have a: "D \<union> set W \<subseteq> S" using S(2) W by (auto simp: D'_def)
      have b: "\<forall>x \<in> S. set (children_of inds fms x) \<subseteq> S"
        if "\<forall>x \<in> D. set (children_of inds fms x) \<subseteq> D \<union> set W"
      proof -
        have "\<forall>x \<in> D'. set (children_of inds fms x) \<subseteq> D' \<union> set (rest @ new)"
          using that W new by (auto simp: D'_def)
        with S(3) show ?thesis by blast
      qed
      have c: "S \<subseteq> T" if "\<forall>x \<in> T. set (children_of inds fms x) \<subseteq> T" "D \<union> set W \<subseteq> T" for T
      proof -
        from that W have "current \<in> T" by auto
        with that(1) have "set (children_of inds fms current) \<subseteq> T" by blast
        with that(2) W new \<open>current \<in> T\<close> have "D' \<union> set (rest @ new) \<subseteq> T"
          by (auto simp: D'_def)
        with S(4) that(1) show ?thesis by blast
      qed
      show ?thesis
      proof (intro exI [of _ S] conjI impI allI)
        show "collect_loop inds fms D W = Some S" by (rule eq)
        show "D \<union> set W \<subseteq> S" by (rule a)
        show "\<forall>x \<in> S. set (children_of inds fms x) \<subseteq> S"
          if "\<forall>x \<in> D. set (children_of inds fms x) \<subseteq> D \<union> set W"
          using b [OF that] .
        show "S \<subseteq> T"
          if "(\<forall>x \<in> T. set (children_of inds fms x) \<subseteq> T) \<and> D \<union> set W \<subseteq> T" for T
          using c [of T] that by blast
      qed
    qed
  qed
  then show ?case by (simp add: s)
qed

lemma collect_loop_total:
  "\<exists>S. collect_loop inds fms D W = Some S
     \<and> D \<union> set W \<subseteq> S
     \<and> ((\<forall>x \<in> D. set (children_of inds fms x) \<subseteq> D \<union> set W) \<longrightarrow>
          (\<forall>x \<in> S. set (children_of inds fms x) \<subseteq> S))
     \<and> (\<forall>T. (\<forall>x \<in> T. set (children_of inds fms x) \<subseteq> T) \<and> D \<union> set W \<subseteq> T \<longrightarrow> S \<subseteq> T)"
  using collect_loop_total_aux [of inds fms "(D, W)"] by simp

lemma collect_descendants_eq:
  "collect_descendants inds fms root_family = Some (descendants_of inds fms root_family)"
proof -
  from collect_loop_total [of inds fms "{}" "children root_family"]
  obtain S where S: "collect_descendants inds fms root_family = Some S"
    "set (children root_family) \<subseteq> S"
    "\<forall>x \<in> S. set (children_of inds fms x) \<subseteq> S"
    "\<forall>T. (\<forall>x \<in> T. set (children_of inds fms x) \<subseteq> T) \<and> set (children root_family) \<subseteq> T \<longrightarrow> S \<subseteq> T"
    by (auto simp: collect_descendants_def)
  have "S \<subseteq> descendants_of inds fms root_family"
  proof -
    have "\<forall>x \<in> descendants_of inds fms root_family.
        set (children_of inds fms x) \<subseteq> descendants_of inds fms root_family"
      by (auto intro: descendants_of.grandchild)
    moreover have "set (children root_family) \<subseteq> descendants_of inds fms root_family"
      by (auto intro: descendants_of.root_child)
    ultimately show ?thesis using S(4) by blast
  qed
  moreover have "c \<in> S" if "c \<in> descendants_of inds fms root_family" for c
    using that
  proof induction
    case (root_child c)
    with S(2) show ?case by blast
  next
    case (grandchild p c)
    with S(3) show ?case by blast
  qed
  ultimately have "S = descendants_of inds fms root_family" by blast
  with S(1) show ?thesis by simp
qed

text \<open>
  Claim C3, as amended. \<open>collect_descendants\<close> returns exactly the set of identifiers
  reachable from the root family through children: the children of the root family, the
  children of the families in which they are spouses, and so on. The result depends on the
  three arguments only, which the function does not change, so a second run yields the same
  set. A root family without children gives the empty set. The identifier of the husband
  or of the wife of the root family is in the result only if it is itself reachable as a
  child; the function has no other test on the spouses of the root family.
\<close>

theorem collect_descendants_reachable:
  "collect_descendants inds fms root_family = Some (descendants_of inds fms root_family)
   \<and> (children root_family = [] \<longrightarrow> collect_descendants inds fms root_family = Some {})
   \<and> (\<forall>sp S. collect_descendants inds fms root_family = Some S
         \<and> (husband root_family = Some sp \<or> wife root_family = Some sp) \<and> sp \<in> S
       \<longrightarrow> sp \<in> descendants_of inds fms root_family)"
proof (intro conjI impI allI)
  show eq: "collect_descendants inds fms root_family = Some (descendants_of inds fms root_family)"
    by (rule collect_descendants_eq)
  show "collect_descendants inds fms root_family = Some {}" if "children root_family = []"
    using that by (simp add: collect_descendants_def collect_loop.simps)
  show "sp \<in> descendants_of inds fms root_family"
    if "collect_descendants inds fms root_family = Some S
         \<and> (husband root_family = Some sp \<or> wife root_family = Some sp) \<and> sp \<in> S" for sp S
    using that eq by simp
qed

theorem collect_descendants_reachable_witness:
  "collect_descendants
     [(''@I3@'', (new_individual ''@I3@'')\<lparr>fams := [''@F2@'']\<rparr>)]
     [(''@F2@'', (new_family ''@F2@'')\<lparr>husband := Some ''@I3@'', children := [''@I4@'']\<rparr>)]
     ((new_family ''@F1@'')\<lparr>husband := Some ''@I1@'', wife := Some ''@I2@'', children := [''@I3@'']\<rparr>)
   = Some {''@I4@'', ''@I3@''}
   \<and> descendants_of
     [(''@I3@'', (new_individual ''@I3@'')\<lparr>fams := [''@F2@'']\<rparr>)]
     [(''@F2@'', (new_family ''@F2@'')\<lparr>husband := Some ''@I3@'', children := [''@I4@'']\<rparr>)]
     ((new_family ''@F1@'')\<lparr>husband := Some ''@I1@'', wife := Some ''@I2@'', children := [''@I3@'']\<rparr>)
   = {''@I4@'', ''@I3@''}
   \<and> collect_descendants [] [] (new_family ''@F1@'') = Some {}"
proof -
  let ?inds = "[(''@I3@'', (new_individual ''@I3@'')\<lparr>fams := [''@F2@'']\<rparr>)]"
  let ?fms = "[(''@F2@'', (new_family ''@F2@'')\<lparr>husband := Some ''@I3@'', children := [''@I4@'']\<rparr>)]"
  let ?root = "(new_family ''@F1@'')\<lparr>husband := Some ''@I1@'', wife := Some ''@I2@'', children := [''@I3@'']\<rparr>"
  have run: "collect_descendants ?inds ?fms ?root = Some {''@I4@'', ''@I3@''}"
    by (simp add: collect_descendants_def collect_loop.simps new_children_def new_family_def
        new_individual_def)
  have none: "children (new_family ''@F1@'') = []"
    by (simp add: new_family_def)
  from collect_descendants_reachable [of ?inds ?fms ?root] run
  have "descendants_of ?inds ?fms ?root = {''@I4@'', ''@I3@''}"
    by simp
  moreover from collect_descendants_reachable [of "[]" "[]" "new_family ''@F1@''"] none
  have "collect_descendants [] [] (new_family ''@F1@'') = Some {}"
    by blast
  ultimately show ?thesis using run by simp
qed

theorem root_spouse_collected_counterexample:
  "husband ((new_family ''@F1@'')\<lparr>husband := Some ''@I1@'', wife := Some ''@I2@'', children := [''@I3@'']\<rparr>)
     = Some ''@I1@''
   \<and> collect_descendants
     [(''@I3@'', (new_individual ''@I3@'')\<lparr>fams := [''@F2@'']\<rparr>)]
     [(''@F2@'', (new_family ''@F2@'')\<lparr>husband := Some ''@I3@'', children := [''@I1@'']\<rparr>)]
     ((new_family ''@F1@'')\<lparr>husband := Some ''@I1@'', wife := Some ''@I2@'', children := [''@I3@'']\<rparr>)
   = Some {''@I1@'', ''@I3@''}"
  by (simp add: collect_descendants_def collect_loop.simps new_children_def new_family_def
      new_individual_def)

text \<open>
  Claim C4. The loop of \<open>collect_descendants\<close> returns for every pair of dictionaries and
  every root family, also when the references between families and children form a
  cycle. In each turn either an identifier is added to the visited set, of which only
  finitely many are listed in the dictionaries and on the stack, or the stack gets
  shorter.
\<close>

theorem collect_descendants_terminates:
  "\<exists>S. collect_descendants inds fms root_family = Some S"
  using collect_loop_total [of inds fms "{}" "children root_family"]
  by (auto simp: collect_descendants_def)

theorem collect_descendants_terminates_witness:
  "\<exists>S. collect_descendants
     [(''@I1@'', (new_individual ''@I1@'')\<lparr>famc := Some ''@F1@'', fams := [''@F1@'']\<rparr>)]
     [(''@F1@'', (new_family ''@F1@'')\<lparr>husband := Some ''@I1@'', children := [''@I1@'']\<rparr>)]
     ((new_family ''@F1@'')\<lparr>husband := Some ''@I1@'', children := [''@I1@'']\<rparr>) = Some S"
  by (rule collect_descendants_terminates)

text \<open>
  Claim C10. A reachable identifier without an entry in the dictionary of individuals is
  in the result and has no children of its own: the turn of the loop that pops it adds it
  to the visited set and pushes nothing. So the result need not be a subset of the keys of
  the dictionary of individuals.
\<close>

theorem dangling_children_are_collected:
  "(c \<in> descendants_of inds fms root_family \<and> map_of inds c = None \<longrightarrow>
      (\<exists>S. collect_descendants inds fms root_family = Some S \<and> c \<in> S)
      \<and> children_of inds fms c = [])
   \<and> (current \<notin> D \<and> map_of inds current = None \<longrightarrow>
      collect_loop inds fms D (rest @ [current]) = collect_loop inds fms (insert current D) rest)
   \<and> (\<exists>inds' fms' root' S. collect_descendants inds' fms' root' = Some S \<and> \<not> S \<subseteq> fst ` set inds')"
proof (intro conjI impI)
  assume a: "c \<in> descendants_of inds fms root_family \<and> map_of inds c = None"
  then show "\<exists>S. collect_descendants inds fms root_family = Some S \<and> c \<in> S"
    by (simp add: collect_descendants_eq)
  from a show "children_of inds fms c = []"
    by (simp add: children_of_def)
next
  assume "current \<notin> D \<and> map_of inds current = None"
  then show "collect_loop inds fms D (rest @ [current]) = collect_loop inds fms (insert current D) rest"
    by (subst collect_loop.simps) simp
next
  have "collect_descendants [] [] ((new_family ''@F1@'')\<lparr>children := [''@I9@'']\<rparr>) = Some {''@I9@''}"
    by (simp add: collect_descendants_def collect_loop.simps new_family_def)
  moreover have "\<not> {''@I9@''} \<subseteq> fst ` set ([] :: Individual dict)"
    by simp
  ultimately show "\<exists>inds' fms' root' S. collect_descendants inds' fms' root' = Some S \<and> \<not> S \<subseteq> fst ` set inds'"
    by blast
qed

theorem dangling_children_are_collected_witness:
  "(\<exists>S. collect_descendants [] [] ((new_family ''@F1@'')\<lparr>children := [''@I9@'']\<rparr>) = Some S \<and> ''@I9@'' \<in> S)
   \<and> collect_loop [] [] {} ([] @ [''@I9@'']) = collect_loop [] [] (insert ''@I9@'' {}) []"
proof -
  let ?root = "(new_family ''@F1@'')\<lparr>children := [''@I9@'']\<rparr>"
  have "''@I9@'' \<in> descendants_of [] [] ?root"
    by (rule descendants_of.root_child) (simp add: new_family_def)
  moreover have "map_of ([] :: Individual dict) ''@I9@'' = None" by simp
  moreover have "''@I9@'' \<notin> ({} :: string set)" by simp
  ultimately show ?thesis
    using dangling_children_are_collected [of "''@I9@''" "[]" "[]" ?root "''@I9@''" "{}" "[]"]
    by blast
qed

section \<open>Properties of extract_name_key\<close>

lemma name_tokens_append:
  assumes "sep \<noteq> []" and "\<forall>c \<in> set sep. \<not> is_alpha c"
  shows "name_tokens (a @ sep @ b) = name_tokens a @ name_tokens b"
  unfolding name_tokens_def using assms by (intro pieces_append) auto

lemma name_tokens_strip:
  assumes "\<forall>c \<in> set sep. \<not> is_alpha c"
  shows "name_tokens (sep @ a) = name_tokens a"
  unfolding name_tokens_def using assms by (intro pieces_all_sep) auto

lemma name_tokens_word:
  assumes "w \<noteq> []" and "\<forall>c \<in> set w. is_alpha c"
  shows "name_tokens w = [w]"
  unfolding name_tokens_def using assms by (intro pieces_single_word) auto

lemma name_tokens_alpha:
  assumes "t \<in> set (name_tokens s)"
  shows "t \<noteq> [] \<and> (\<forall>c \<in> set t. is_alpha c)"
proof -
  from assms have "t \<noteq> []" and t: "t \<in> set (re_split_runs (\<lambda>c. \<not> is_alpha c) s)"
    by (auto simp: name_tokens_def)
  moreover have "is_alpha x" if "x \<in> set t" for x
    using pieces_elements [OF t that] by simp
  ultimately show ?thesis by blast
qed

lemma name_tokens_lower: "name_tokens (lower s) = map lower (name_tokens s)"
proof -
  have "re_split_runs (\<lambda>c. \<not> is_alpha c) (map lower_char s)
      = map (map lower_char) (re_split_runs (\<lambda>c. \<not> is_alpha c) s)"
    by (rule re_split_runs_map) (simp add: is_alpha_lower_char)
  then show ?thesis
    by (simp add: name_tokens_def lower_def filter_map comp_def)
qed

lemma last_name_loop_lower: "last_name_loop (map lower ts) = last_name_loop ts"
  by (induction ts) (simp_all add: lower_idem)

text \<open>The key is a function of the lower-case tokens.\<close>

lemma extract_name_key_tokens:
  assumes "map lower (name_tokens a) = map lower (name_tokens b)"
  shows "extract_name_key a = extract_name_key b"
proof -
  let ?ta = "name_tokens a" and ?tb = "name_tokens b"
  from assms have len: "length ?ta = length ?tb"
    by (metis length_map)
  show ?thesis
  proof (cases "length ?ta < 2")
    case True
    with len show ?thesis by (simp add: extract_name_key_def)
  next
    case False
    then have ne: "?ta \<noteq> []" "?tb \<noteq> []" using len by auto
    have "lower (hd ?ta) = hd (map lower ?ta)" using ne by (simp add: hd_map)
    also have "\<dots> = lower (hd ?tb)" using ne assms by (simp add: hd_map)
    finally have first: "lower (hd ?ta) = lower (hd ?tb)" .
    have "lower (last ?ta) = last (map lower ?ta)" using ne by (simp add: last_map)
    also have "\<dots> = lower (last ?tb)" using ne assms by (simp add: last_map)
    finally have fallback: "lower (last ?ta) = lower (last ?tb)" .
    have "last_name_loop (rev (tl ?ta)) = last_name_loop (map lower (rev (tl ?ta)))"
      by (simp add: last_name_loop_lower)
    also have "map lower (rev (tl ?ta)) = map lower (rev (tl ?tb))"
    proof -
      have "map lower (tl ?ta) = tl (map lower ?ta)" by (simp add: map_tl)
      also have "\<dots> = map lower (tl ?tb)" using assms by (simp add: map_tl)
      finally have "rev (map lower (tl ?ta)) = rev (map lower (tl ?tb))" by simp
      then show ?thesis by (simp only: rev_map)
    qed
    also have "last_name_loop (map lower (rev (tl ?tb))) = last_name_loop (rev (tl ?tb))"
      by (simp add: last_name_loop_lower)
    finally have loop: "last_name_loop (rev (tl ?ta)) = last_name_loop (rev (tl ?tb))" .
    from False len first fallback loop show ?thesis
      by (simp add: extract_name_key_def Let_def)
  qed
qed

lemma last_name_loop_result:
  "last_name_loop ts = Some k \<Longrightarrow> \<exists>t \<in> set ts. k = lower t"
  by (induction ts) (auto split: if_splits)

lemma lower_alpha:
  assumes "t \<noteq> [] \<and> (\<forall>c \<in> set t. is_alpha c)"
  shows "lower t \<noteq> [] \<and> (\<forall>c \<in> set (lower t). is_alpha c)"
  using assms by (auto simp: lower_def is_alpha_lower_char)

lemma extract_name_key_shape:
  assumes "extract_name_key name = Some k"
  shows "\<exists>first last_name. k = first @ '' '' @ last_name
      \<and> first \<noteq> [] \<and> (\<forall>c \<in> set first. is_alpha c) \<and> lower first = first
      \<and> last_name \<noteq> [] \<and> (\<forall>c \<in> set last_name. is_alpha c) \<and> lower last_name = last_name"
proof -
  let ?ts = "name_tokens name"
  from assms have len: "\<not> length ?ts < 2"
    by (auto simp: extract_name_key_def Let_def split: if_splits)
  then have ne: "?ts \<noteq> []" by auto
  define first where "first = lower (hd ?ts)"
  define found where "found = last_name_loop (rev (tl ?ts))"
  define last_name where "last_name = (if truthy found then the found else lower (last ?ts))"
  from assms len have k: "k = first @ '' '' @ last_name"
    by (auto simp: extract_name_key_def Let_def first_def found_def last_name_def)
  have "hd ?ts \<in> set ?ts" using ne by simp
  from lower_alpha [OF name_tokens_alpha [OF this]]
  have first: "first \<noteq> [] \<and> (\<forall>c \<in> set first. is_alpha c) \<and> lower first = first"
    by (simp add: first_def lower_idem)
  have "\<exists>t \<in> set ?ts. last_name = lower t"
  proof (cases "truthy found")
    case True
    then obtain f where f: "found = Some f" by (auto simp: truthy_def)
    from last_name_loop_result [OF f [unfolded found_def]]
    obtain t where "t \<in> set (rev (tl ?ts))" "f = lower t" by blast
    moreover then have "t \<in> set ?ts" using ne by (auto dest: list.set_sel(2))
    ultimately show ?thesis using True f by (auto simp: last_name_def)
  next
    case False
    moreover have "last ?ts \<in> set ?ts" using ne by simp
    ultimately show ?thesis by (auto simp: last_name_def)
  qed
  then obtain t where t: "t \<in> set ?ts" "last_name = lower t" by blast
  from lower_alpha [OF name_tokens_alpha [OF t(1)]] t(2)
  have "last_name \<noteq> [] \<and> (\<forall>c \<in> set last_name. is_alpha c) \<and> lower last_name = last_name"
    by (simp add: lower_idem)
  with k first show ?thesis by blast
qed

lemma space_not_alpha: "\<not> is_alpha CHR '' ''"
  by (simp add: is_alpha_def is_upper_def is_lower_def)

lemma extract_name_key_idem:
  assumes "extract_name_key name = Some k"
  shows "extract_name_key k = Some k"
proof -
  from extract_name_key_shape [OF assms]
  obtain first last_name where k: "k = first @ '' '' @ last_name"
    and first: "first \<noteq> []" "\<forall>c \<in> set first. is_alpha c" "lower first = first"
    and last_name: "last_name \<noteq> []" "\<forall>c \<in> set last_name. is_alpha c" "lower last_name = last_name"
    by blast
  have "name_tokens k = name_tokens first @ name_tokens last_name"
    unfolding k by (rule name_tokens_append) (simp_all add: space_not_alpha)
  with first last_name have ts: "name_tokens k = [first, last_name]"
    by (simp add: name_tokens_word)
  have "extract_name_key k = Some (first @ '' '' @ last_name)"
    using first(3) last_name(1,3)
    by (simp add: extract_name_key_def ts Let_def truthy_def)
  then show ?thesis by (simp add: k)
qed

text \<open>
  Claim C9. A name with at least two tokens of letters has a key, and the key of that key
  is the key itself. The key does not change when letters of the name change case, when a
  non-empty run of characters that are no letters between two parts of the name is
  replaced by another such run, or when such characters are put before or after the name.
\<close>

theorem name_key_idempotent_insensitive:
  "(2 \<le> length (name_tokens name) \<longrightarrow>
      (\<exists>k. extract_name_key name = Some k \<and> extract_name_key k = Some k))
   \<and> (lower name' = lower name \<longrightarrow> extract_name_key name' = extract_name_key name)
   \<and> (sep \<noteq> [] \<and> sep' \<noteq> [] \<and> (\<forall>c \<in> set sep. \<not> is_alpha c) \<and> (\<forall>c \<in> set sep'. \<not> is_alpha c) \<longrightarrow>
      extract_name_key (a @ sep @ b) = extract_name_key (a @ sep' @ b))
   \<and> ((\<forall>c \<in> set pre. \<not> is_alpha c) \<and> (\<forall>c \<in> set post. \<not> is_alpha c) \<longrightarrow>
      extract_name_key (pre @ name @ post) = extract_name_key name)"
proof (intro conjI impI)
  assume "2 \<le> length (name_tokens name)"
  then obtain k where "extract_name_key name = Some k"
    by (auto simp: extract_name_key_def Let_def)
  with extract_name_key_idem [OF this]
  show "\<exists>k. extract_name_key name = Some k \<and> extract_name_key k = Some k"
    by blast
next
  assume "lower name' = lower name"
  then have "name_tokens (lower name') = name_tokens (lower name)" by simp
  then have "map lower (name_tokens name') = map lower (name_tokens name)"
    by (simp add: name_tokens_lower)
  then show "extract_name_key name' = extract_name_key name"
    by (rule extract_name_key_tokens)
next
  assume "sep \<noteq> [] \<and> sep' \<noteq> [] \<and> (\<forall>c \<in> set sep. \<not> is_alpha c) \<and> (\<forall>c \<in> set sep'. \<not> is_alpha c)"
  then have "name_tokens (a @ sep @ b) = name_tokens (a @ sep' @ b)"
    by (simp add: name_tokens_append)
  then show "extract_name_key (a @ sep @ b) = extract_name_key (a @ sep' @ b)"
    by (intro extract_name_key_tokens) simp
next
  assume a: "(\<forall>c \<in> set pre. \<not> is_alpha c) \<and> (\<forall>c \<in> set post. \<not> is_alpha c)"
  have "name_tokens (name @ post) = name_tokens name"
  proof (cases "post = []")
    case True
    then show ?thesis by simp
  next
    case False
    with a have "name_tokens (name @ post @ []) = name_tokens name @ name_tokens []"
      by (intro name_tokens_append) auto
    then show ?thesis by (simp add: name_tokens_def)
  qed
  with a have "name_tokens (pre @ name @ post) = name_tokens name"
    by (simp add: name_tokens_strip)
  then show "extract_name_key (pre @ name @ post) = extract_name_key name"
    by (intro extract_name_key_tokens) simp
qed

theorem name_key_idempotent_insensitive_witness:
  "(\<exists>k. extract_name_key ''John Q. Smith Jr'' = Some k \<and> extract_name_key k = Some k)
   \<and> extract_name_key ''JOHN q. smith JR'' = extract_name_key ''John Q. Smith Jr''
   \<and> extract_name_key (''John'' @ '' '' @ ''Smith'') = extract_name_key (''John'' @ '',  '' @ ''Smith'')
   \<and> extract_name_key (''  '' @ ''John Smith'' @ ''.'') = extract_name_key ''John Smith''"
proof -
  have h1: "2 \<le> length (name_tokens ''John Q. Smith Jr'')" by code_simp
  have h2: "lower ''JOHN q. smith JR'' = lower ''John Q. Smith Jr''" by code_simp
  have h3: "'' '' \<noteq> [] \<and> '',  '' \<noteq> [] \<and> (\<forall>c \<in> set '' ''. \<not> is_alpha c) \<and> (\<forall>c \<in> set '',  ''. \<not> is_alpha c)"
    by code_simp
  have h4: "(\<forall>c \<in> set ''  ''. \<not> is_alpha c) \<and> (\<forall>c \<in> set ''.''. \<not> is_alpha c)"
    by code_simp
  from name_key_idempotent_insensitive
    [of "''John Q. Smith Jr''" "''JOHN q. smith JR''" "'' ''" "'',  ''" "''John''" "''Smith''" "[]" "[]"] h1 h2 h3
  have "(\<exists>k. extract_name_key ''John Q. Smith Jr'' = Some k \<and> extract_name_key k = Some k)
   \<and> extract_name_key ''JOHN q. smith JR'' = extract_name_key ''John Q. Smith Jr''
   \<and> extract_name_key (''John'' @ '' '' @ ''Smith'') = extract_name_key (''John'' @ '',  '' @ ''Smith'')"
    by blast
  moreover from name_key_idempotent_insensitive
    [of "''John Smith''" "''John Smith''" "'' ''" "'' ''" "[]" "[]" "''  ''" "''.''"] h4
  have "extract_name_key (''  '' @ ''John Smith'' @ ''.'') = extract_name_key ''John Smith''"
    by blast
  ultimately show ?thesis by blast
qed

section \<open>Properties of slugify\<close>

lemma set_re_sub_runs:
  "set (re_sub_runs p repl s) \<subseteq> set repl \<union> {c \<in> set s. \<not> p c}"
proof (induction p repl s rule: re_sub_runs.induct)
  case (1 p repl)
  show ?case by simp
next
  case (2 p repl c cs)
  show ?case
  proof (cases "p c")
    case True
    with 2 have "set (re_sub_runs p repl (dropWhile p cs)) \<subseteq> set repl \<union> {c \<in> set (dropWhile p cs). \<not> p c}"
      by simp
    moreover have "set (dropWhile p cs) \<subseteq> set cs" by (rule set_dropWhileD [THEN subsetI])
    ultimately show ?thesis using True by auto
  next
    case False
    with 2 show ?thesis by auto
  qed
qed

lemma set_strip_chars: "set (strip_chars p s) \<subseteq> set s"
proof -
  have "set (strip_chars p s) = set (dropWhile p (rev (dropWhile p s)))"
    by (simp only: strip_chars_def rstrip_chars_def set_rev)
  also have "\<dots> \<subseteq> set (rev (dropWhile p s))"
    by (rule set_dropWhileD [THEN subsetI])
  also have "\<dots> = set (dropWhile p s)"
    by (simp only: set_rev)
  also have "\<dots> \<subseteq> set s"
    by (rule set_dropWhileD [THEN subsetI])
  finally show ?thesis .
qed

lemma strip_chars_ends:
  assumes "strip_chars p s \<noteq> []"
  shows "\<not> p (hd (strip_chars p s)) \<and> \<not> p (last (strip_chars p s))"
proof -
  let ?d = "dropWhile p s"
  let ?r = "dropWhile p (rev ?d)"
  from assms have r: "?r \<noteq> []" by (simp add: strip_chars_def rstrip_chars_def)
  have d: "?d \<noteq> []"
  proof
    assume "?d = []"
    then have "?r = []" by (simp only: rev.simps(1) dropWhile.simps(1))
    with r show False by contradiction
  qed
  from r have "\<not> p (hd ?r)" by (rule hd_dropWhile)
  then have last: "\<not> p (last (strip_chars p s))"
    using r by (simp add: strip_chars_def rstrip_chars_def last_rev)
  from d have h: "\<not> p (hd ?d)" by (rule hd_dropWhile)
  obtain x xs where dx: "?d = x # xs" using d by (cases ?d) auto
  with h have px: "\<not> p x" by simp
  have "rev ?r = x # drop 1 (rev ?r)"
  proof -
    have "rev ?d = rev xs @ [x]" using dx by simp
    then have "?r = dropWhile p (rev xs @ [x])" by simp
    also have "\<dots> = dropWhile p (rev xs) @ [x]"
      using px by (simp add: dropWhile_append3)
    finally show ?thesis by (simp add: drop_Suc)
  qed
  then have "hd (strip_chars p s) = x"
    by (metis list.sel(1) rstrip_chars_def strip_chars_def)
  with px last show ?thesis by simp
qed

lemma slug_chars:
  "c \<in> set (strip_chars (\<lambda>c. c = CHR ''-'')
        (re_sub_runs (\<lambda>c. \<not> (is_lower c \<or> is_digit c)) ''-'' s))
   \<Longrightarrow> is_lower c \<or> is_digit c \<or> c = CHR ''-''"
  using set_strip_chars [of "\<lambda>c. c = CHR ''-''" "re_sub_runs (\<lambda>c. \<not> (is_lower c \<or> is_digit c)) ''-'' s"]
    set_re_sub_runs [of "\<lambda>c. \<not> (is_lower c \<or> is_digit c)" "''-''" s]
  by auto

lemma double_append_eq:
  assumes "s @ m @ s = t @ m @ t"
  shows "s = t"
proof -
  from assms have "length (s @ m @ s) = length (t @ m @ t)" by simp
  then have "length s = length t" by simp
  with assms show ?thesis by simp
qed

text \<open>
  Claim C6, as amended. \<open>slugify\<close> returns the slug of the name (the name in lower case,
  every run of characters other than a-z and 0-9 replaced by one hyphen, hyphens at both
  ends removed; the identifier without the \<open>@\<close> at its ends when nothing is left),
  followed by a hyphen and the identifier without the \<open>@\<close> at its ends. The slug of the name
  consists of the characters a-z, 0-9 and the hyphen and neither starts nor ends with a
  hyphen. The identifier is not cleaned: a character of the result is one of these or a
  character of the stripped identifier. Two identifiers whose stripped forms differ give
  different results for the same name.
\<close>

theorem slugify_characters_and_uniqueness:
  "slugify name identifier =
     (let slug = strip_chars (\<lambda>c. c = CHR ''-'')
                   (re_sub_runs (\<lambda>c. \<not> (is_lower c \<or> is_digit c)) ''-'' (lower name));
          stripped = strip_chars (\<lambda>c. c = CHR ''@'') identifier
      in (if slug = [] then stripped else slug) @ ''-'' @ stripped)
   \<and> (let slug = strip_chars (\<lambda>c. c = CHR ''-'')
                   (re_sub_runs (\<lambda>c. \<not> (is_lower c \<or> is_digit c)) ''-'' (lower name))
      in (\<forall>c \<in> set slug. is_lower c \<or> is_digit c \<or> c = CHR ''-'')
         \<and> (slug \<noteq> [] \<longrightarrow> hd slug \<noteq> CHR ''-'' \<and> last slug \<noteq> CHR ''-''))
   \<and> (\<forall>c \<in> set (slugify name identifier).
        is_lower c \<or> is_digit c \<or> c = CHR ''-''
        \<or> c \<in> set (strip_chars (\<lambda>c. c = CHR ''@'') identifier))
   \<and> (strip_chars (\<lambda>c. c = CHR ''@'') identifier \<noteq> strip_chars (\<lambda>c. c = CHR ''@'') identifier'
        \<longrightarrow> slugify name identifier \<noteq> slugify name identifier')"
proof -
  define slug where "slug = strip_chars (\<lambda>c. c = CHR ''-'')
     (re_sub_runs (\<lambda>c. \<not> (is_lower c \<or> is_digit c)) ''-'' (lower name))"
  define stripped where "stripped = strip_chars (\<lambda>c. c = CHR ''@'') identifier"
  define stripped' where "stripped' = strip_chars (\<lambda>c. c = CHR ''@'') identifier'"
  have eq: "slugify name identifier = (if slug = [] then stripped else slug) @ ''-'' @ stripped"
    by (simp add: slugify_def Let_def slug_def stripped_def)
  have eq': "slugify name identifier' = (if slug = [] then stripped' else slug) @ ''-'' @ stripped'"
    by (simp add: slugify_def Let_def slug_def stripped'_def)
  have chars: "\<forall>c \<in> set slug. is_lower c \<or> is_digit c \<or> c = CHR ''-''"
    unfolding slug_def using slug_chars by blast
  have ends: "slug \<noteq> [] \<longrightarrow> hd slug \<noteq> CHR ''-'' \<and> last slug \<noteq> CHR ''-''"
    unfolding slug_def using strip_chars_ends [of "\<lambda>c. c = CHR ''-''"] by blast
  have all: "\<forall>c \<in> set (slugify name identifier).
        is_lower c \<or> is_digit c \<or> c = CHR ''-'' \<or> c \<in> set stripped"
    unfolding eq using chars by auto
  have uniq: "slugify name identifier \<noteq> slugify name identifier'" if "stripped \<noteq> stripped'"
  proof
    assume same: "slugify name identifier = slugify name identifier'"
    show False
    proof (cases "slug = []")
      case True
      with same eq eq' have "stripped @ ''-'' @ stripped = stripped' @ ''-'' @ stripped'"
        by simp
      then have "stripped = stripped'" by (rule double_append_eq)
      with that show False by contradiction
    next
      case False
      with same eq eq' have "stripped = stripped'" by simp
      with that show False by contradiction
    qed
  qed
  from eq chars ends all uniq show ?thesis
    unfolding slug_def stripped_def stripped'_def Let_def by blast
qed

theorem slugify_characters_and_uniqueness_witness:
  "slugify ''John  O'Brien, Jr.'' ''@I12@'' = ''john-o-brien-jr-I12''
   \<and> strip_chars (\<lambda>c. c = CHR ''@'') ''@I12@'' \<noteq> strip_chars (\<lambda>c. c = CHR ''@'') ''@I13@''
   \<and> slugify ''John  O'Brien, Jr.'' ''@I12@'' \<noteq> slugify ''John  O'Brien, Jr.'' ''@I13@''"
proof -
  have ne: "strip_chars (\<lambda>c. c = CHR ''@'') ''@I12@'' \<noteq> strip_chars (\<lambda>c. c = CHR ''@'') ''@I13@''"
    by code_simp
  have ev: "(let slug = strip_chars (\<lambda>c. c = CHR ''-'')
                   (re_sub_runs (\<lambda>c. \<not> (is_lower c \<or> is_digit c)) ''-'' (lower ''John  O'Brien, Jr.''));
          stripped = strip_chars (\<lambda>c. c = CHR ''@'') ''@I12@''
      in (if slug = [] then stripped else slug) @ ''-'' @ stripped) = ''john-o-brien-jr-I12''"
    by code_simp
  note inst = slugify_characters_and_uniqueness [of "''John  O'Brien, Jr.''" "''@I12@''" "''@I13@''"]
  from inst have "slugify ''John  O'Brien, Jr.'' ''@I12@''
      = (let slug = strip_chars (\<lambda>c. c = CHR ''-'')
                   (re_sub_runs (\<lambda>c. \<not> (is_lower c \<or> is_digit c)) ''-'' (lower ''John  O'Brien, Jr.''));
          stripped = strip_chars (\<lambda>c. c = CHR ''@'') ''@I12@''
      in (if slug = [] then stripped else slug) @ ''-'' @ stripped)"
    by (rule conjunct1)
  then have 1: "slugify ''John  O'Brien, Jr.'' ''@I12@'' = ''john-o-brien-jr-I12''"
    by (simp only: ev)
  from inst ne have 2: "slugify ''John  O'Brien, Jr.'' ''@I12@'' \<noteq> slugify ''John  O'Brien, Jr.'' ''@I13@''"
    by blast
  from 1 ne 2 show ?thesis by blast
qed

theorem slugify_unsafe_or_equal_counterexample:
  "CHR ''/'' \<in> set (slugify ''John Smith'' ''@I/1@'')
   \<and> ''@I1@'' \<noteq> ''@@I1@''
   \<and> slugify ''Ann Lee'' ''@I1@'' = slugify ''Ann Lee'' ''@@I1@''"
  by code_simp

section \<open>Properties of find_individual\<close>

lemma score_class:
  assumes "contains (normalise (display_name i)) q"
  shows "fst (score q i) = int (match_class q i)"
  using assms by (simp add: score_def match_class_def Let_def)

lemma score_le_class:
  assumes "contains (normalise (display_name i)) q" and "contains (normalise (display_name j)) q"
    and "score q i \<le> score q j"
  shows "match_class q i \<le> match_class q j"
proof -
  from assms(3) have "fst (score q i) \<le> fst (score q j)"
    by (cases "score q i"; cases "score q j") (auto simp: less_eq_prod_def)
  with score_class [OF assms(1)] score_class [OF assms(2)] show ?thesis by simp
qed

lemma singleton_sort_key:
  assumes "sort_key f xs = [b]"
  shows "xs = [b]"
proof -
  have "length (sort_key f xs) = length xs" by (rule length_sort)
  with assms have "length xs = 1" by simp
  then obtain x where x: "xs = [x]" by (cases xs) auto
  with assms show ?thesis by simp
qed

lemma find_individual_matches:
  assumes "normalise query = q" and "q \<noteq> []"
  shows "find_individual inds query =
     (case best_candidates inds q of
        [] \<Rightarrow> Inl (ValueError (not_found_message query))
      | [best] \<Rightarrow> Inr best
      | _ \<Rightarrow> Inl (ValueError (ambiguous_message query)))"
proof -
  define ms where "ms = candidates inds q"
  define ys where "ys = sort_key (score q) ms"
  have cont: "contains (normalise (display_name i)) q" if "i \<in> set ms" for i
    using that by (simp add: ms_def candidates_def)
  have find: "find_individual inds query =
      (case ys of
         [] \<Rightarrow> Inl (ValueError (not_found_message query))
       | best # others \<Rightarrow>
           if others \<noteq> [] \<and> fst (score q (hd others)) = fst (score q best)
           then Inl (ValueError (ambiguous_message query)) else Inr best)"
    using assms by (simp add: find_individual_def Let_def ys_def ms_def candidates_def)
  have set_ys: "set ys = set ms" by (simp add: ys_def)
  have sorted_ys: "sorted (map (score q) ys)" by (simp add: ys_def)
  show ?thesis
  proof (cases ys)
    case Nil
    then have "ms = []" using set_ys by auto
    then have "best_candidates inds q = []"
      by (simp add: best_candidates_def Let_def ms_def [symmetric])
    with Nil find show ?thesis by simp
  next
    case (Cons best others)
    have best_in: "best \<in> set ms" using Cons set_ys by auto
    have least: "match_class q best \<le> match_class q other" if "other \<in> set ms" for other
    proof -
      from that set_ys have "other \<in> set ys" by simp
      with sorted_ys Cons have "score q best \<le> score q other" by auto
      with cont [OF best_in] cont [OF that] show ?thesis by (rule score_le_class)
    qed
    define P where "P = (\<lambda>i. match_class q i = match_class q best)"
    have filt: "filter (\<lambda>ind. \<forall>other \<in> set ms. match_class q ind \<le> match_class q other) ms
        = filter P ms"
    proof (rule filter_cong [OF refl])
      fix i assume i: "i \<in> set ms"
      show "(\<forall>other \<in> set ms. match_class q i \<le> match_class q other) = P i"
      proof
        assume "\<forall>other \<in> set ms. match_class q i \<le> match_class q other"
        with best_in have "match_class q i \<le> match_class q best" by blast
        with least [OF i] show "P i" by (simp add: P_def)
      next
        assume "P i"
        with least show "\<forall>other \<in> set ms. match_class q i \<le> match_class q other"
          by (simp add: P_def)
      qed
    qed
    then have bc: "best_candidates inds q = filter P ms"
      by (simp add: best_candidates_def Let_def ms_def [symmetric])
    have sorted_filter: "filter P ys = sort_key (score q) (filter P ms)"
      by (simp add: ys_def filter_sort)
    show ?thesis
    proof (cases "others \<noteq> [] \<and> fst (score q (hd others)) = fst (score q best)")
      case True
      then obtain second rest where others: "others = second # rest" by (cases others) auto
      have second_in: "second \<in> set ms" using Cons others set_ys by auto
      from True others have "fst (score q second) = fst (score q best)" by simp
      with score_class [OF cont [OF second_in]] score_class [OF cont [OF best_in]]
      have "P second" by (simp add: P_def)
      then have "length (filter P ys) \<ge> 2"
        using Cons others by (simp add: P_def)
      then have "length (filter P ms) \<ge> 2"
        by (simp add: sorted_filter)
      then obtain x y zs where "filter P ms = x # y # zs"
        by (cases "filter P ms"; cases "tl (filter P ms)") auto
      with bc True Cons find show ?thesis by simp
    next
      case False
      have "\<not> P other" if "other \<in> set others" for other
      proof -
        from that obtain second rest where others: "others = second # rest" by (cases others) auto
        have second_in: "second \<in> set ms" using Cons others set_ys by auto
        have other_in: "other \<in> set ms" using Cons that set_ys by auto
        from False others have ne: "fst (score q second) \<noteq> fst (score q best)" by simp
        from sorted_ys Cons others that have "score q second \<le> score q other" by auto
        with cont [OF second_in] cont [OF other_in]
        have 1: "match_class q second \<le> match_class q other" by (rule score_le_class)
        from ne score_class [OF cont [OF second_in]] score_class [OF cont [OF best_in]]
        have "match_class q second \<noteq> match_class q best" by simp
        with least [OF second_in] have "match_class q best < match_class q second" by simp
        with 1 show ?thesis by (simp add: P_def)
      qed
      then have "filter P others = []" by (simp add: filter_empty_conv)
      then have "filter P ys = [best]" using Cons by (simp add: P_def)
      then have "filter P ms = [best]"
        using sorted_filter singleton_sort_key [of "score q" "filter P ms" best] by simp
      with bc False Cons find show ?thesis by simp
    qed
  qed
qed

lemma best_candidates_empty:
  "best_candidates inds q = [] \<longleftrightarrow> candidates inds q = []"
proof
  assume "candidates inds q = []"
  then show "best_candidates inds q = []" by (simp add: best_candidates_def)
next
  assume empty: "best_candidates inds q = []"
  show "candidates inds q = []"
  proof (rule ccontr)
    let ?cs = "candidates inds q"
    assume ne: "?cs \<noteq> []"
    define b where "b = arg_min_list (match_class q) ?cs"
    from ne have b_in: "b \<in> set ?cs" by (simp add: b_def arg_min_list_in)
    from ne have "match_class q b = Min (match_class q ` set ?cs)"
      by (simp add: b_def f_arg_min_list_f)
    then have "\<forall>other \<in> set ?cs. match_class q b \<le> match_class q other" by simp
    with b_in have "b \<in> set (best_candidates inds q)"
      by (simp add: best_candidates_def Let_def)
    with empty show False by simp
  qed
qed

text \<open>
  Claim C8. \<open>find_individual\<close> fails with "Empty name provided" when the query
  normalises to the empty string. Otherwise the candidates are the individuals whose
  normalised display name contains the normalised query, ranked as exact match, match at
  the start, match elsewhere; the function returns the candidate of the best rank that
  occurs when there is exactly one of that rank, fails with "Could not find" when there
  is no candidate, and fails with "Multiple individuals match" when two or more
  candidates share the best rank.
\<close>

theorem find_individual_precedence:
  "find_individual inds query =
     (if normalise query = [] then Inl (ValueError ''Empty name provided'')
      else
        (case best_candidates inds (normalise query) of
           [] \<Rightarrow> Inl (ValueError (not_found_message query))
         | [best] \<Rightarrow> Inr best
         | _ \<Rightarrow> Inl (ValueError (ambiguous_message query))))
   \<and> (best_candidates inds (normalise query) = [] \<longleftrightarrow> candidates inds (normalise query) = [])"
proof (intro conjI)
  show "find_individual inds query =
     (if normalise query = [] then Inl (ValueError ''Empty name provided'')
      else
        (case best_candidates inds (normalise query) of
           [] \<Rightarrow> Inl (ValueError (not_found_message query))
         | [best] \<Rightarrow> Inr best
         | _ \<Rightarrow> Inl (ValueError (ambiguous_message query))))"
  proof (cases "normalise query = []")
    case True
    then show ?thesis by (simp add: find_individual_def)
  next
    case False
    from find_individual_matches [OF refl False, of inds] False show ?thesis by simp
  qed
  show "best_candidates inds (normalise query) = [] \<longleftrightarrow> candidates inds (normalise query) = []"
    by (rule best_candidates_empty)
qed

theorem find_individual_precedence_witness:
  "find_individual
     [(''@I1@'', (new_individual ''@I1@'')\<lparr>ind_name := ''Al /Lee/''\<rparr>),
      (''@I2@'', (new_individual ''@I2@'')\<lparr>ind_name := ''Al /Leeds/''\<rparr>)]
     ''al lee''
   = Inr ((new_individual ''@I1@'')\<lparr>ind_name := ''Al /Lee/''\<rparr>)
   \<and> find_individual
     [(''@I1@'', (new_individual ''@I1@'')\<lparr>ind_name := ''Al /Lee/''\<rparr>),
      (''@I2@'', (new_individual ''@I2@'')\<lparr>ind_name := ''Al /Leeds/''\<rparr>)]
     ''al''
   = Inl (ValueError (ambiguous_message ''al''))"
proof -
  let ?inds = "[(''@I1@'', (new_individual ''@I1@'')\<lparr>ind_name := ''Al /Lee/''\<rparr>),
      (''@I2@'', (new_individual ''@I2@'')\<lparr>ind_name := ''Al /Leeds/''\<rparr>)]"
  have q1: "normalise ''al lee'' = ''al lee''" by code_simp
  have b1: "best_candidates ?inds ''al lee'' = [(new_individual ''@I1@'')\<lparr>ind_name := ''Al /Lee/''\<rparr>]"
    by code_simp
  have q2: "normalise ''al'' = ''al''" by code_simp
  have b2: "best_candidates ?inds ''al''
      = [(new_individual ''@I1@'')\<lparr>ind_name := ''Al /Lee/''\<rparr>,
         (new_individual ''@I2@'')\<lparr>ind_name := ''Al /Leeds/''\<rparr>]"
    by code_simp
  have ne: "''al lee'' \<noteq> []" "''al'' \<noteq> []" by simp_all
  have 1: "find_individual ?inds ''al lee''
      = Inr ((new_individual ''@I1@'')\<lparr>ind_name := ''Al /Lee/''\<rparr>)"
    using find_individual_precedence [of ?inds "''al lee''"]
    by (simp only: q1 b1 ne if_False list.case simp_thms)
  have 2: "find_individual ?inds ''al'' = Inl (ValueError (ambiguous_message ''al''))"
    using find_individual_precedence [of ?inds "''al''"]
    by (simp only: q2 b2 ne if_False list.case simp_thms)
  from 1 2 show ?thesis by blast
qed

section \<open>Properties of the sort key\<close>

lemma undated_after_dated:
  assumes "parse_date_string (ev_date (birth a)) = Inr None"
    and "parse_date_string (ev_date (birth b)) = Inr (Some d)"
  shows "\<exists>ka kb. birth_sort_key a = Inr ka \<and> birth_sort_key b = Inr kb
     \<and> tuple_lt kb ka = Inr True \<and> tuple_lt ka kb = Inr False"
  using assms by (simp add: birth_sort_key_def)

lemma dated_chronological:
  assumes "parse_date_string (ev_date (birth a)) = Inr (Some da)"
    and "parse_date_string (ev_date (birth b)) = Inr (Some db)"
    and "(year da, month da, day da) < (year db, month db, day db)"
  shows "\<exists>ka kb. birth_sort_key a = Inr ka \<and> birth_sort_key b = Inr kb
     \<and> tuple_lt ka kb = Inr True \<and> tuple_lt kb ka = Inr False"
  using assms by (auto simp: birth_sort_key_def less_prod_def)

lemma birth_sort_key_shape:
  assumes "birth_sort_key a = Inr ka"
  shows "(\<exists>n. ka = [PyInt 1, PyStr n]) \<or> (\<exists>y m d n. ka = [PyInt 0, PyInt y, PyInt m, PyInt d, PyStr n])"
  using assms by (auto simp: birth_sort_key_def split: sum.splits option.splits)

lemma tuple_lt_str: "tuple_lt [PyStr n] [PyStr n'] = Inr (n < n')"
  by simp

lemma tuple_lt_int_step:
  "tuple_lt xs ys = Inr (rx < ry) \<Longrightarrow>
     tuple_lt (PyInt a # xs) (PyInt b # ys) = Inr ((a, rx) < (b, ry))"
  by (auto simp: less_prod_def)

lemma key_rank_undated: "key_rank [PyInt r, PyStr n] = (r, 0, 0, 0, n)"
  by (simp add: key_rank_def)

lemma key_rank_dated: "key_rank [PyInt r, PyInt y, PyInt m, PyInt d, PyStr n] = (r, y, m, d, n)"
  by (simp add: key_rank_def)

lemma tuple_lt_key_rank_undated:
  "tuple_lt [PyInt 1, PyStr n] [PyInt 1, PyStr n']
     = Inr (key_rank [PyInt 1, PyStr n] < key_rank [PyInt 1, PyStr n'])"
proof -
  have "tuple_lt [PyInt 1, PyStr n] [PyInt 1, PyStr n'] = Inr ((1 :: int, n) < (1, n'))"
    by (intro tuple_lt_int_step tuple_lt_str)
  then show ?thesis
    unfolding key_rank_undated by (simp add: less_prod_def)
qed

lemma tuple_lt_key_rank_dated:
  "tuple_lt [PyInt 0, PyInt y, PyInt m, PyInt d, PyStr n] [PyInt 0, PyInt y', PyInt m', PyInt d', PyStr n']
     = Inr (key_rank [PyInt 0, PyInt y, PyInt m, PyInt d, PyStr n]
            < key_rank [PyInt 0, PyInt y', PyInt m', PyInt d', PyStr n'])"
  unfolding key_rank_dated by (intro tuple_lt_int_step tuple_lt_str)

lemma tuple_lt_key_rank_mixed:
  "tuple_lt [PyInt 1, PyStr n] [PyInt 0, PyInt y, PyInt m, PyInt d, PyStr n']
     = Inr (key_rank [PyInt 1, PyStr n] < key_rank [PyInt 0, PyInt y, PyInt m, PyInt d, PyStr n'])"
  "tuple_lt [PyInt 0, PyInt y, PyInt m, PyInt d, PyStr n'] [PyInt 1, PyStr n]
     = Inr (key_rank [PyInt 0, PyInt y, PyInt m, PyInt d, PyStr n'] < key_rank [PyInt 1, PyStr n])"
  unfolding key_rank_undated key_rank_dated by (simp_all add: less_prod_def)

lemma tuple_lt_key_rank:
  assumes "(\<exists>n. ka = [PyInt 1, PyStr n]) \<or> (\<exists>y m d n. ka = [PyInt 0, PyInt y, PyInt m, PyInt d, PyStr n])"
    and "(\<exists>n. kb = [PyInt 1, PyStr n]) \<or> (\<exists>y m d n. kb = [PyInt 0, PyInt y, PyInt m, PyInt d, PyStr n])"
  shows "tuple_lt ka kb = Inr (key_rank ka < key_rank kb) \<and> (key_rank ka = key_rank kb \<longrightarrow> ka = kb)"
proof (intro conjI)
  from assms show "tuple_lt ka kb = Inr (key_rank ka < key_rank kb)"
    by (elim disjE exE)
       (simp_all only: tuple_lt_key_rank_undated tuple_lt_key_rank_dated tuple_lt_key_rank_mixed)
  from assms show "key_rank ka = key_rank kb \<longrightarrow> ka = kb"
    by (elim disjE exE) (simp_all add: key_rank_undated key_rank_dated)
qed

lemma sort_keys_total_order:
  assumes "birth_sort_key a = Inr ka" and "birth_sort_key b = Inr kb" and "birth_sort_key c = Inr kc"
  shows "tuple_lt ka ka = Inr False"
    and "tuple_lt ka kb = Inr True \<or> ka = kb \<or> tuple_lt kb ka = Inr True"
    and "tuple_lt ka kb = Inr True \<Longrightarrow> tuple_lt kb ka = Inr False"
    and "tuple_lt ka kb = Inr True \<Longrightarrow> tuple_lt kb kc = Inr True \<Longrightarrow> tuple_lt ka kc = Inr True"
proof -
  note sa = birth_sort_key_shape [OF assms(1)]
  note sb = birth_sort_key_shape [OF assms(2)]
  note sc = birth_sort_key_shape [OF assms(3)]
  from tuple_lt_key_rank [OF sa sa] show "tuple_lt ka ka = Inr False" by simp
  from tuple_lt_key_rank [OF sa sb] tuple_lt_key_rank [OF sb sa]
  show "tuple_lt ka kb = Inr True \<or> ka = kb \<or> tuple_lt kb ka = Inr True"
    using less_linear [of "key_rank ka" "key_rank kb"] by auto
  from tuple_lt_key_rank [OF sa sb] tuple_lt_key_rank [OF sb sa]
  show "tuple_lt ka kb = Inr True \<Longrightarrow> tuple_lt kb ka = Inr False"
    using less_asym [of "key_rank ka" "key_rank kb"] by auto
  from tuple_lt_key_rank [OF sa sb] tuple_lt_key_rank [OF sb sc] tuple_lt_key_rank [OF sa sc]
  show "tuple_lt ka kb = Inr True \<Longrightarrow> tuple_lt kb kc = Inr True \<Longrightarrow> tuple_lt ka kc = Inr True"
    using less_trans [of "key_rank ka" "key_rank kb" "key_rank kc"] by auto
qed

text \<open>
  Claim C7. \<open>parse_date_string\<close> turns \<open>1930\<close> into the first of January 1930 and
  \<open>03/04/1930\<close> into the fourth of March 1930, the date that the first format, month/day/year
  in digits, reads from it; for \<open>garbage\<close> it returns no date. The sort key of an individual with
  the birth date \<open>garbage\<close> is greater than the sort key of every individual whose birth date
  parses.
\<close>

theorem parse_date_examples:
  "parse_date_string (Some ''1930'') = Inr (Some \<lparr>year = 1930, month = 1, day = 1\<rparr>)
   \<and> strptime ''03/04/1930'' (hd DATE_FORMATS) = Some \<lparr>year = 1930, month = 3, day = 4\<rparr>
   \<and> parse_date_string (Some ''03/04/1930'') = Inr (Some \<lparr>year = 1930, month = 3, day = 4\<rparr>)
   \<and> parse_date_string (Some ''garbage'') = Inr None
   \<and> (ev_date (birth a) = Some ''garbage'' \<and> parse_date_string (ev_date (birth b)) = Inr (Some d)
      \<longrightarrow> (\<exists>ka kb. birth_sort_key a = Inr ka \<and> birth_sort_key b = Inr kb
            \<and> tuple_lt kb ka = Inr True \<and> tuple_lt ka kb = Inr False))"
proof (intro conjI impI)
  show "parse_date_string (Some ''1930'') = Inr (Some \<lparr>year = 1930, month = 1, day = 1\<rparr>)"
    by code_simp
  show "strptime ''03/04/1930'' (hd DATE_FORMATS) = Some \<lparr>year = 1930, month = 3, day = 4\<rparr>"
    by code_simp
  show "parse_date_string (Some ''03/04/1930'') = Inr (Some \<lparr>year = 1930, month = 3, day = 4\<rparr>)"
    by code_simp
  show garbage: "parse_date_string (Some ''garbage'') = Inr None"
    by code_simp
  assume "ev_date (birth a) = Some ''garbage'' \<and> parse_date_string (ev_date (birth b)) = Inr (Some d)"
  with garbage have "parse_date_string (ev_date (birth a)) = Inr None"
    and "parse_date_string (ev_date (birth b)) = Inr (Some d)"
    by simp_all
  then show "\<exists>ka kb. birth_sort_key a = Inr ka \<and> birth_sort_key b = Inr kb
            \<and> tuple_lt kb ka = Inr True \<and> tuple_lt ka kb = Inr False"
    by (rule undated_after_dated)
qed

theorem parse_date_examples_witness:
  "\<exists>ka kb. birth_sort_key ((new_individual ''@I1@'')\<lparr>birth := \<lparr>ev_date = Some ''garbage'', ev_place = None\<rparr>\<rparr>) = Inr ka
     \<and> birth_sort_key ((new_individual ''@I2@'')\<lparr>birth := \<lparr>ev_date = Some ''1930'', ev_place = None\<rparr>\<rparr>) = Inr kb
     \<and> tuple_lt kb ka = Inr True \<and> tuple_lt ka kb = Inr False"
proof -
  let ?a = "(new_individual ''@I1@'')\<lparr>birth := \<lparr>ev_date = Some ''garbage'', ev_place = None\<rparr>\<rparr>"
  let ?b = "(new_individual ''@I2@'')\<lparr>birth := \<lparr>ev_date = Some ''1930'', ev_place = None\<rparr>\<rparr>"
  have a: "ev_date (birth ?a) = Some ''garbage''" by simp
  have "ev_date (birth ?b) = Some ''1930''" by simp
  moreover have "parse_date_string (Some ''1930'') = Inr (Some \<lparr>year = 1930, month = 1, day = 1\<rparr>)"
    using parse_date_examples [of ?a ?b "\<lparr>year = 1930, month = 1, day = 1\<rparr>"] by blast
  ultimately have b: "parse_date_string (ev_date (birth ?b)) = Inr (Some \<lparr>year = 1930, month = 1, day = 1\<rparr>)"
    by simp
  from parse_date_examples [of ?a ?b "\<lparr>year = 1930, month = 1, day = 1\<rparr>"] a b
  show ?thesis by blast
qed

text \<open>
  Claim C5. The claim needs a sort key for every individual. For the birth date \<open>0000\<close>
  none of the formats parses, the text is four digits, and \<^verbatim>\<open>datetime(0, 1, 1)\<close> on line 223
  raises \<^verbatim>\<open>ValueError\<close> outside any \<^verbatim>\<open>try\<close>: \<open>birth_sort_key\<close> raises instead of returning
  a key. (For individuals whose keys exist the comparison is a linear order, keys with a
  date come before keys without, and dates are compared by year, month and day: lemmas
  \<open>sort_keys_total_order\<close>, \<open>undated_after_dated\<close> and \<open>dated_chronological\<close>.)
\<close>

theorem birth_sort_key_year_zero:
  "birth_sort_key ((new_individual ''@I1@'')\<lparr>birth := \<lparr>ev_date = Some ''0000'', ev_place = None\<rparr>\<rparr>)
     = Inl (ValueError ''year 0 is out of range'')"
  by code_simp

end
